theory Spec2Isabelle
  imports Complex_Main "HOL-Library.Log_Nat"
begin

section \<open>JavaScript Number values\<close>

text \<open>
  The calculator engine of \<^verbatim>\<open>src/assets/js/calculator.js\<close> computes with
  JavaScript Numbers, that is IEEE 754 binary64 values. A finite non-zero Number is
  represented by the rational it denotes (\<open>Fin q\<close>), \<open>Fin 0\<close> is \<open>+0\<close>, and
  \<open>NegZero\<close>, \<open>PInf\<close>, \<open>NInf\<close>, \<open>NaN\<close> are the remaining values. Every arithmetic
  operation computes the exact rational result and rounds it with \<open>rnd\<close>, the function
  that ECMA-262 calls "the Number value for x" (round to nearest, ties to even, overflow to infinity,
  gradual underflow).
\<close>

datatype jsnum = Fin rat | NegZero | PInf | NInf | NaN

definition pow2 :: "int \<Rightarrow> rat" where
  "pow2 e = (if 0 \<le> e then of_int (2 ^ nat e) else 1 / of_int (2 ^ nat (- e)))"

definition pow10 :: "int \<Rightarrow> rat" where
  "pow10 e = (if 0 \<le> e then of_int (10 ^ nat e) else 1 / of_int (10 ^ nat (- e)))"

text \<open>\<open>flog2 a\<close> and \<open>flog10 a\<close> are \<open>\<lfloor>log a\<rfloor>\<close> to base 2 and 10 for a positive rational,
  found from the lengths of numerator and denominator (\<open>bitlen\<close> counts binary digits,
  \<open>declen\<close> decimal digits).\<close>

definition flog2 :: "rat \<Rightarrow> int" where
  "flog2 a = (case quotient_of a of (p, d) \<Rightarrow>
     (let e0 = bitlen p - bitlen d in if pow2 e0 \<le> a then e0 else e0 - 1))"

function declen :: "int \<Rightarrow> int" where
  "declen x = (if 0 < x then declen (x div 10) + 1 else 0)"
  by pat_completeness auto
termination
  by (relation "measure nat") auto

declare declen.simps [simp del]

definition flog10 :: "rat \<Rightarrow> int" where
  "flog10 a = (case quotient_of a of (p, d) \<Rightarrow>
     (let e0 = declen p - declen d in if pow10 e0 \<le> a then e0 else e0 - 1))"

definition round_half_even :: "rat \<Rightarrow> int" where
  "round_half_even x = (let f = \<lfloor>x\<rfloor>; r = x - of_int f
     in if r < 1 / 2 then f else if 1 / 2 < r then f + 1 else if even f then f else f + 1)"

definition signed_zero :: "bool \<Rightarrow> jsnum" where
  "signed_zero neg = (if neg then NegZero else Fin 0)"

definition signed_inf :: "bool \<Rightarrow> jsnum" where
  "signed_inf neg = (if neg then NInf else PInf)"

text \<open>
  The Number value for a rational: the nearest \<open>m \<times> 2\<^bsup>e\<^esup>\<close> with \<open>m \<le> 2\<^bsup>53\<^esup>\<close> and
  \<open>e \<ge> -1074\<close>. The result is infinite when it reaches \<open>2\<^bsup>1024\<^esup>\<close>, that is when
  \<open>e > 971\<close> or \<open>m = 2\<^bsup>53\<^esup>\<close> at \<open>e = 971\<close>.
\<close>

definition rnd :: "rat \<Rightarrow> jsnum" where
  "rnd q = (if q = 0 then Fin 0 else
     (let a = \<bar>q\<bar>;
          e = max (flog2 a) (- 1022) - 52;
          m = round_half_even (a / pow2 e)
      in if 971 < e \<or> (e = 971 \<and> 2 ^ 53 \<le> m) then signed_inf (q < 0)
         else if m = 0 then signed_zero (q < 0)
         else Fin (if q < 0 then - (of_int m * pow2 e) else of_int m * pow2 e)))"

fun is_nan :: "jsnum \<Rightarrow> bool" where
  "is_nan NaN = True"
| "is_nan _ = False"

fun is_inf :: "jsnum \<Rightarrow> bool" where
  "is_inf PInf = True"
| "is_inf NInf = True"
| "is_inf _ = False"

fun is_zero :: "jsnum \<Rightarrow> bool" where
  "is_zero (Fin q) = (q = 0)"
| "is_zero NegZero = True"
| "is_zero _ = False"

fun is_neg :: "jsnum \<Rightarrow> bool" where
  "is_neg (Fin q) = (q < 0)"
| "is_neg NegZero = True"
| "is_neg NInf = True"
| "is_neg _ = False"

text \<open>The rational denoted by a finite Number (both zeros denote 0).\<close>

fun val :: "jsnum \<Rightarrow> rat" where
  "val (Fin q) = q"
| "val _ = 0"

text \<open>\<^verbatim>\<open>Number.isFinite(x)\<close>\<close>

definition Number_isFinite :: "jsnum \<Rightarrow> bool" where
  "Number_isFinite x = (\<not> is_nan x \<and> \<not> is_inf x)"

text \<open>Unary minus and the binary operators \<^verbatim>\<open>+ - * / %\<close> of ECMA-262 (Number::add,
  subtract, multiply, divide, remainder).\<close>

fun js_neg :: "jsnum \<Rightarrow> jsnum" where
  "js_neg (Fin q) = (if q = 0 then NegZero else Fin (- q))"
| "js_neg NegZero = Fin 0"
| "js_neg PInf = NInf"
| "js_neg NInf = PInf"
| "js_neg NaN = NaN"

definition js_add :: "jsnum \<Rightarrow> jsnum \<Rightarrow> jsnum" where
  "js_add a b =
     (if is_nan a \<or> is_nan b then NaN
      else if is_inf a then (if is_inf b \<and> a \<noteq> b then NaN else a)
      else if is_inf b then b
      else if a = NegZero \<and> b = NegZero then NegZero
      else rnd (val a + val b))"

definition js_sub :: "jsnum \<Rightarrow> jsnum \<Rightarrow> jsnum" where
  "js_sub a b = js_add a (js_neg b)"

definition js_mul :: "jsnum \<Rightarrow> jsnum \<Rightarrow> jsnum" where
  "js_mul a b =
     (if is_nan a \<or> is_nan b then NaN
      else let neg = (is_neg a \<noteq> is_neg b) in
        if is_inf a \<or> is_inf b then (if is_zero a \<or> is_zero b then NaN else signed_inf neg)
        else if is_zero a \<or> is_zero b then signed_zero neg
        else rnd (val a * val b))"

definition js_div :: "jsnum \<Rightarrow> jsnum \<Rightarrow> jsnum" where
  "js_div a b =
     (if is_nan a \<or> is_nan b then NaN
      else let neg = (is_neg a \<noteq> is_neg b) in
        if is_inf a then (if is_inf b then NaN else signed_inf neg)
        else if is_inf b then signed_zero neg
        else if is_zero b then (if is_zero a then NaN else signed_inf neg)
        else if is_zero a then signed_zero neg
        else rnd (val a / val b))"

definition js_mod :: "jsnum \<Rightarrow> jsnum \<Rightarrow> jsnum" where
  "js_mod a b =
     (if is_nan a \<or> is_nan b \<or> is_inf a \<or> is_zero b then NaN
      else if is_inf b then a
      else if is_zero a then a
      else let r = \<bar>val a\<bar> - \<bar>val b\<bar> * of_int \<lfloor>\<bar>val a\<bar> / \<bar>val b\<bar>\<rfloor> in
        if r = 0 then signed_zero (is_neg a)
        else rnd (if is_neg a then - r else r))"

text \<open>\<^verbatim>\<open>a === b\<close> and \<^verbatim>\<open>a < b\<close> on Numbers: \<open>NaN\<close> compares false, the two zeros are equal.\<close>

definition js_strict_eq :: "jsnum \<Rightarrow> jsnum \<Rightarrow> bool" where
  "js_strict_eq a b = (\<not> is_nan a \<and> \<not> is_nan b \<and> (a = b \<or> (is_zero a \<and> is_zero b)))"

definition js_lt :: "jsnum \<Rightarrow> jsnum \<Rightarrow> bool" where
  "js_lt a b =
     (if is_nan a \<or> is_nan b then False
      else if a = PInf \<or> b = NInf then False
      else if a = NInf \<or> b = PInf then True
      else val a < val b)"

text \<open>\<^verbatim>\<open>Math.abs\<close>, \<^verbatim>\<open>Math.round\<close> (nearest integer, ties towards \<open>+\<infinity>\<close>, \<open>-0\<close> for
  \<open>-0.5 \<le> x < 0\<close>) and \<^verbatim>\<open>Math.pow(10, CONFIG.MAX_DECIMAL_PLACES)\<close>, which is the
  exactly representable \<open>10\<^sup>1\<^sup>0\<close>.\<close>

fun Math_abs :: "jsnum \<Rightarrow> jsnum" where
  "Math_abs (Fin q) = Fin \<bar>q\<bar>"
| "Math_abs NegZero = Fin 0"
| "Math_abs PInf = PInf"
| "Math_abs NInf = PInf"
| "Math_abs NaN = NaN"

fun Math_round :: "jsnum \<Rightarrow> jsnum" where
  "Math_round (Fin q) =
     (let n = \<lfloor>q + 1 / 2\<rfloor> in if n = 0 then signed_zero (q < 0) else rnd (of_int n))"
| "Math_round x = x"

definition MAX_DECIMAL_PLACES :: nat where
  "MAX_DECIMAL_PLACES = 10"

definition Math_pow10 :: "nat \<Rightarrow> jsnum" where
  "Math_pow10 n = rnd (10 ^ n)"

section \<open>Strings and the conversions between strings and Numbers\<close>

text \<open>
  A JavaScript string is modelled as a \<open>string\<close>, one \<open>char\<close> per code unit, so the
  model covers the strings whose code units are below 256. \<open>is_space\<close> is the class
  \<^verbatim>\<open>\s\<close> of regular expressions (also the white space that \<^verbatim>\<open>ToNumber\<close> and
  \<^verbatim>\<open>parseFloat\<close> strip) on that range: TAB, LF, VT, FF, CR, SP and NBSP.
\<close>

definition isDigit :: "char \<Rightarrow> bool" where
  "isDigit c = (48 \<le> (of_char c :: nat) \<and> (of_char c :: nat) \<le> 57)"

definition is_space :: "char \<Rightarrow> bool" where
  "is_space c = ((of_char c :: nat) \<in> {9, 10, 11, 12, 13, 32, 160})"

text \<open>The decimal digits of a non-negative integer, and back.\<close>

function digits_of :: "int \<Rightarrow> string" where
  "digits_of n =
     (if n < 10 then [char_of (48 + n)]
      else digits_of (n div 10) @ [char_of (48 + n mod 10)])"
  by pat_completeness auto
termination
  by (relation "measure nat") auto

declare digits_of.simps [simp del]

definition int_of_digits :: "string \<Rightarrow> int" where
  "int_of_digits s = foldl (\<lambda>a c. 10 * a + ((of_char c :: int) - 48)) 0 s"

subsection \<open>\<^verbatim>\<open>Number.prototype.toString\<close>\<close>

text \<open>
  ECMA-262, Number::toString with radix 10: for a positive finite \<open>x\<close> take integers
  \<open>n\<close>, \<open>k\<close>, \<open>s\<close> with \<open>k \<ge> 1\<close>, \<open>10\<^bsup>k-1\<^esup> \<le> s < 10\<^bsup>k\<^esup>\<close>, the Number value for
  \<open>s \<times> 10\<^bsup>n-k\<^esup>\<close> equal to \<open>x\<close> and \<open>k\<close> as small as possible; among several \<open>s\<close> the one
  closest to \<open>x\<close>, the even one on a tie. For each \<open>k\<close> the two \<open>k\<close>-digit decimals around
  \<open>x\<close> are the only candidates. Seventeen digits identify every binary64 value, so
  for a Number the search ends at some \<open>k \<le> 17\<close>.
\<close>

definition candidates :: "rat \<Rightarrow> int \<Rightarrow> nat \<Rightarrow> (int \<times> int) list" where
  "candidates x n0 k =
     (let lo = \<lfloor>x / pow10 (n0 - int k)\<rfloor>; hi = lo + 1
      in [(lo, n0), (if hi = 10 ^ k then (10 ^ (k - 1), n0 + 1) else (hi, n0))])"

definition cand_val :: "nat \<Rightarrow> int \<times> int \<Rightarrow> rat" where
  "cand_val k c = of_int (fst c) * pow10 (snd c - int k)"

definition pick :: "rat \<Rightarrow> nat \<Rightarrow> (int \<times> int) list \<Rightarrow> (int \<times> int) option" where
  "pick x k cs =
     (case filter (\<lambda>c. rnd (cand_val k c) = Fin x) cs of
        [] \<Rightarrow> None
      | [c] \<Rightarrow> Some c
      | c1 # c2 # _ \<Rightarrow>
          (let d1 = \<bar>cand_val k c1 - x\<bar>; d2 = \<bar>cand_val k c2 - x\<bar>
           in Some (if d1 < d2 then c1 else if d2 < d1 then c2
                    else if even (fst c1) then c1 else c2)))"

fun shortest :: "rat \<Rightarrow> int \<Rightarrow> nat \<Rightarrow> nat \<Rightarrow> int \<times> int \<times> nat" where
  "shortest x n0 k 0 = (\<lfloor>x / pow10 (n0 - int k)\<rfloor>, n0, k)"
| "shortest x n0 k (Suc fuel) =
     (case pick x k (candidates x n0 k) of
        Some (s, n) \<Rightarrow> (s, n, k)
      | None \<Rightarrow> shortest x n0 (Suc k) fuel)"

definition format_pos :: "rat \<Rightarrow> string" where
  "format_pos x =
     (case shortest x (flog10 x + 1) 1 17 of (s, n, k) \<Rightarrow>
        (let ds = digits_of s in
         if int k \<le> n \<and> n \<le> 21 then ds @ replicate (nat (n - int k)) (CHR ''0'')
         else if 0 < n \<and> n \<le> 21 then take (nat n) ds @ ''.'' @ drop (nat n) ds
         else if - 6 < n \<and> n \<le> 0 then ''0.'' @ replicate (nat (- n)) (CHR ''0'') @ ds
         else (let e = n - 1;
                   es = (if e < 0 then ''-'' else ''+'') @ digits_of \<bar>e\<bar>
               in if k = 1 then ds @ ''e'' @ es
                  else take 1 ds @ ''.'' @ drop 1 ds @ ''e'' @ es)))"

fun Number_toString :: "jsnum \<Rightarrow> string" where
  "Number_toString NaN = ''NaN''"
| "Number_toString NegZero = ''0''"
| "Number_toString PInf = ''Infinity''"
| "Number_toString NInf = ''-Infinity''"
| "Number_toString (Fin q) =
     (if q = 0 then ''0'' else if q < 0 then ''-'' @ format_pos (- q) else format_pos q)"

subsection \<open>\<^verbatim>\<open>parseInt\<close>, \<^verbatim>\<open>ToNumber\<close> and \<^verbatim>\<open>parseFloat\<close>\<close>

text \<open>
  \<^verbatim>\<open>parseInt(x)\<close> on a Number converts it to a string first, then reads an optional
  sign and the longest run of decimal digits. (The string of a Number never starts with
  white space or \<^verbatim>\<open>0x\<close>, so those steps of \<^verbatim>\<open>parseInt\<close> do nothing here.)
\<close>

definition parseInt :: "jsnum \<Rightarrow> jsnum" where
  "parseInt x =
     (let S = Number_toString x;
          neg = (take 1 S = ''-'');
          S1 = (if take 1 S = ''-'' \<or> take 1 S = ''+'' then drop 1 S else S);
          Z = takeWhile isDigit S1
      in if Z = [] then NaN
         else (let m = int_of_digits Z
               in if m = 0 then signed_zero neg
                  else rnd (if neg then - of_int m else of_int m)))"

text \<open>
  The tokens that \<^verbatim>\<open>_tokenizeExpression\<close> produces are runs of digits and dots, and
  single other characters. On these, \<^verbatim>\<open>ToNumber\<close> (behind the global \<^verbatim>\<open>isNaN\<close> and
  \<^verbatim>\<open>isFinite\<close>) is: \<open>+0\<close> for white space, the rounded value of a decimal literal
  \<^verbatim>\<open>digits\<close>, \<^verbatim>\<open>digits.\<close>, \<^verbatim>\<open>digits.digits\<close> or \<^verbatim>\<open>.digits\<close>, and \<open>NaN\<close> otherwise.
  \<^verbatim>\<open>parseFloat\<close> reads the longest prefix that is such a literal. Signs, exponents,
  \<^verbatim>\<open>Infinity\<close> and \<^verbatim>\<open>0x\<close> literals need several non-digit characters in one token,
  which the tokenizer never produces, and are not modelled.
\<close>

definition str_decimal :: "string \<Rightarrow> rat option" where
  "str_decimal s =
     (let ip = takeWhile isDigit s in
      case dropWhile isDigit s of
        [] \<Rightarrow> (if ip = [] then None else Some (of_int (int_of_digits ip)))
      | c # fp \<Rightarrow>
          (if c = CHR ''.'' \<and> list_all isDigit fp \<and> (ip \<noteq> [] \<or> fp \<noteq> [])
           then Some (of_int (int_of_digits (ip @ fp)) / 10 ^ length fp)
           else None))"

definition trim :: "string \<Rightarrow> string" where
  "trim s = rev (dropWhile is_space (rev (dropWhile is_space s)))"

definition ToNumber :: "string \<Rightarrow> jsnum" where
  "ToNumber t =
     (let s = trim t in
      if s = [] then Fin 0
      else (case str_decimal s of Some q \<Rightarrow> rnd q | None \<Rightarrow> NaN))"

definition parseFloat :: "string \<Rightarrow> jsnum" where
  "parseFloat t =
     (let s = dropWhile is_space t;
          ip = takeWhile isDigit s;
          fp = (case dropWhile isDigit s of
                  [] \<Rightarrow> []
                | c # r \<Rightarrow> (if c = CHR ''.'' then takeWhile isDigit r else []))
      in if ip = [] \<and> fp = [] then NaN
         else rnd (of_int (int_of_digits (ip @ fp)) / 10 ^ length fp))"

section \<open>The calculation engine\<close>

text \<open>
  A thrown \<^verbatim>\<open>CalculatorError\<close> is modelled by its \<^verbatim>\<open>type\<close> field, one of
  \<^verbatim>\<open>CalculatorError.ERROR_TYPES\<close>; a function that can throw returns \<open>Inl\<close> of the
  type, or \<open>Inr\<close> of its value.
\<close>

datatype error_type = DIVISION_BY_ZERO | INVALID_INPUT | OVERFLOW | UNDERFLOW | SYNTAX_ERROR

subsection \<open>Operations and their factory\<close>

datatype Operation =
  AdditionOperation | SubtractionOperation | MultiplicationOperation
  | DivisionOperation | ModuloOperation

fun symbol :: "Operation \<Rightarrow> string" where
  "symbol AdditionOperation = ''+''"
| "symbol SubtractionOperation = ''-''"
| "symbol MultiplicationOperation = ''*''"
| "symbol DivisionOperation = ''/''"
| "symbol ModuloOperation = ''%''"

fun precedence :: "Operation \<Rightarrow> nat" where
  "precedence AdditionOperation = 1"
| "precedence SubtractionOperation = 1"
| "precedence MultiplicationOperation = 2"
| "precedence DivisionOperation = 2"
| "precedence ModuloOperation = 2"

fun execute :: "Operation \<Rightarrow> jsnum \<Rightarrow> jsnum \<Rightarrow> error_type + jsnum" where
  "execute AdditionOperation a b = Inr (js_add a b)"
| "execute SubtractionOperation a b = Inr (js_sub a b)"
| "execute MultiplicationOperation a b = Inr (js_mul a b)"
| "execute DivisionOperation a b =
     (if js_strict_eq b (Fin 0) then Inl DIVISION_BY_ZERO else Inr (js_div a b))"
| "execute ModuloOperation a b =
     (if js_strict_eq b (Fin 0) then Inl DIVISION_BY_ZERO else Inr (js_mod a b))"

text \<open>\<^verbatim>\<open>OperationFactory.createOperation\<close> and \<^verbatim>\<open>OperationFactory.isOperator\<close>. The
  engine calls \<^verbatim>\<open>createOperation\<close> only on symbols for which \<^verbatim>\<open>isOperator\<close> holds, and
  the definition is meant for those calls: on the name of an inherited property of the
  object literal (\<^verbatim>\<open>"constructor"\<close>, \<^verbatim>\<open>"__proto__"\<close>) the lookup of the source finds a
  value and \<^verbatim>\<open>INVALID_INPUT\<close> is not what is thrown.\<close>

definition createOperation :: "string \<Rightarrow> error_type + Operation" where
  "createOperation s =
     (if s = ''+'' then Inr AdditionOperation
      else if s = ''-'' then Inr SubtractionOperation
      else if s = ''*'' then Inr MultiplicationOperation
      else if s = ''/'' then Inr DivisionOperation
      else if s = ''%'' then Inr ModuloOperation
      else Inl INVALID_INPUT)"

definition isOperator :: "string \<Rightarrow> bool" where
  "isOperator s = (s \<in> set [''+'', ''-'', ''*'', ''/'', ''%''])"

subsection \<open>Validation\<close>

text \<open>The argument of \<^verbatim>\<open>calculate\<close> is any JavaScript value; only its being a string or
  not is looked at.\<close>

datatype jsvalue =
  JSString string | JSNumber jsnum | JSBoolean bool | JSNull | JSUndefined | JSObject

text \<open>
  The regular expressions of \<^verbatim>\<open>_validateExpression\<close>. The flag \<^verbatim>\<open>i\<close> folds the case
  of ASCII letters only (no other character below 256 folds to one). \<open>match_ci p s\<close>:
  the lower-case literal \<open>p\<close> matches at the start of \<open>s\<close>; \<open>search m s\<close>: the matcher
  \<open>m\<close> succeeds at some position of \<open>s\<close>. In \<^verbatim>\<open>/new\s+Function/i\<close> the white space run
  is followed by a letter, so only the whole run can match \<^verbatim>\<open>\s+\<close>.
\<close>

definition to_lower :: "char \<Rightarrow> char" where
  "to_lower c =
     (if 65 \<le> (of_char c :: nat) \<and> (of_char c :: nat) \<le> 90
      then char_of ((of_char c :: nat) + 32) else c)"

fun match_ci :: "string \<Rightarrow> string \<Rightarrow> bool" where
  "match_ci [] s = True"
| "match_ci (p # ps) [] = False"
| "match_ci (p # ps) (c # cs) = (to_lower c = p \<and> match_ci ps cs)"

fun search :: "(string \<Rightarrow> bool) \<Rightarrow> string \<Rightarrow> bool" where
  "search m [] = m []"
| "search m (c # cs) = (m (c # cs) \<or> search m cs)"

definition match_new_Function :: "string \<Rightarrow> bool" where
  "match_new_Function s =
     (match_ci ''new'' s \<and>
      (case drop 3 s of
         [] \<Rightarrow> False
       | c # r \<Rightarrow> is_space c \<and> match_ci ''function'' (dropWhile is_space r)))"

definition dangerousPatterns :: "(string \<Rightarrow> bool) list" where
  "dangerousPatterns =
     [match_ci ''eval('', match_ci ''function('', match_new_Function,
      match_ci ''.constructor'', match_ci ''__proto__'', match_ci ''process.'',
      match_ci ''require('', match_ci ''import('']"

definition validChar :: "char \<Rightarrow> bool" where
  "validChar c = (isDigit c \<or> c \<in> set ''+-*/%.()'' \<or> is_space c)"

text \<open>\<^verbatim>\<open>/^[0-9+\-*\/%.()\s]+$/.test(expression)\<close>\<close>

definition validChars :: "string \<Rightarrow> bool" where
  "validChars e = (e \<noteq> [] \<and> list_all validChar e)"

text \<open>The parenthesis loop, which leaves at the first negative balance; the result is
  the value of \<^verbatim>\<open>balance\<close> after the loop.\<close>

fun balance_loop :: "string \<Rightarrow> int \<Rightarrow> int" where
  "balance_loop [] balance = balance"
| "balance_loop (c # cs) balance =
     (let b1 = (if c = CHR ''('' then balance + 1 else balance);
          b2 = (if c = CHR '')'' then b1 - 1 else b1)
      in if b2 < 0 then b2 else balance_loop cs b2)"

definition validateExpression :: "jsvalue \<Rightarrow> error_type + unit" where
  "validateExpression expression =
     (case expression of
        JSString e \<Rightarrow>
          (if length e = 0 then Inl INVALID_INPUT
           else if list_ex (\<lambda>pattern. search pattern e) dangerousPatterns then Inl INVALID_INPUT
           else if \<not> validChars e then Inl INVALID_INPUT
           else if balance_loop e 0 \<noteq> 0 then Inl SYNTAX_ERROR
           else Inr ())
      | _ \<Rightarrow> Inl INVALID_INPUT)"

subsection \<open>Tokenizer\<close>

fun tokenize_loop :: "string \<Rightarrow> string list \<Rightarrow> string \<Rightarrow> string list" where
  "tokenize_loop [] tokens currentNumber =
     (if currentNumber \<noteq> [] then tokens @ [currentNumber] else tokens)"
| "tokenize_loop (c # cs) tokens currentNumber =
     (if isDigit c \<or> c = CHR ''.'' then tokenize_loop cs tokens (currentNumber @ [c])
      else (let tokens1 = (if currentNumber \<noteq> [] then tokens @ [currentNumber] else tokens);
                tokens2 = (if c \<noteq> CHR '' '' then tokens1 @ [[c]] else tokens1)
            in tokenize_loop cs tokens2 []))"

definition tokenizeExpression :: "string \<Rightarrow> string list" where
  "tokenizeExpression expression = tokenize_loop expression [] []"

text \<open>\<^verbatim>\<open>_isNumber(token)\<close> is \<^verbatim>\<open>!isNaN(token) && isFinite(token)\<close>; both global functions
  convert the token with \<^verbatim>\<open>ToNumber\<close>.\<close>

definition isNumber :: "string \<Rightarrow> bool" where
  "isNumber token = (\<not> is_nan (ToNumber token) \<and> Number_isFinite (ToNumber token))"

subsection \<open>Shunting yard\<close>

text \<open>
  The array \<^verbatim>\<open>output\<close> holds Numbers and operator strings. The array \<^verbatim>\<open>operators\<close> is
  used as a stack and is kept here with its top first. \<open>pop_operators\<close> is the inner
  \<^verbatim>\<open>while\<close> loop of the operator branch, \<open>pop_to_paren\<close> the one of the \<^verbatim>\<open>')'\<close> branch
  (the \<^verbatim>\<open>operators.pop()\<close> after it does nothing on an empty array), and the
  loop over the tokens ends with moving the remaining operators to the output.
  A token that is no number, no operator and no parenthesis matches no branch.
\<close>

datatype rpn_item = Number jsnum | Symbol string

fun pop_operators ::
  "Operation \<Rightarrow> string list \<Rightarrow> rpn_item list \<Rightarrow> error_type + (string list \<times> rpn_item list)" where
  "pop_operators op1 [] output = Inr ([], output)"
| "pop_operators op1 (top1 # rest) output =
     (if top1 = ''('' \<or> \<not> isOperator top1 then Inr (top1 # rest, output)
      else (case createOperation top1 of
              Inl err \<Rightarrow> Inl err
            | Inr op2 \<Rightarrow>
                (if precedence op2 > precedence op1
                 then pop_operators op1 rest (output @ [Symbol top1])
                 else Inr (top1 # rest, output))))"

fun pop_to_paren :: "string list \<Rightarrow> rpn_item list \<Rightarrow> string list \<times> rpn_item list" where
  "pop_to_paren [] output = ([], output)"
| "pop_to_paren (top1 # rest) output =
     (if top1 \<noteq> ''('' then pop_to_paren rest (output @ [Symbol top1])
      else (top1 # rest, output))"

fun rpn_loop ::
  "string list \<Rightarrow> rpn_item list \<Rightarrow> string list \<Rightarrow> error_type + rpn_item list" where
  "rpn_loop [] output operators = Inr (output @ map Symbol operators)"
| "rpn_loop (token # tokens) output operators =
     (if isNumber token then rpn_loop tokens (output @ [Number (parseFloat token)]) operators
      else if isOperator token then
        (case createOperation token of
           Inl err \<Rightarrow> Inl err
         | Inr op1 \<Rightarrow>
             (case pop_operators op1 operators output of
                Inl err \<Rightarrow> Inl err
              | Inr (ops, out) \<Rightarrow> rpn_loop tokens out (token # ops)))
      else if token = ''('' then rpn_loop tokens output (token # operators)
      else if token = '')'' then
        (case pop_to_paren operators output of
           (ops, out) \<Rightarrow> rpn_loop tokens out (drop 1 ops))
      else rpn_loop tokens output operators)"

definition toReversePolishNotation :: "string \<Rightarrow> error_type + rpn_item list" where
  "toReversePolishNotation expression = rpn_loop (tokenizeExpression expression) [] []"

subsection \<open>Evaluation\<close>

definition roundResult :: "jsnum \<Rightarrow> jsnum" where
  "roundResult number =
     (if js_lt (Math_abs number) (rnd (1 / 10 ^ 10)) then Fin 0
      else (let multiplier = Math_pow10 MAX_DECIMAL_PLACES;
                rounded = js_div (Math_round (js_mul number multiplier)) multiplier
            in if js_strict_eq (js_mod rounded (Fin 1)) (Fin 0) then parseInt rounded
               else rounded))"

text \<open>The loop of \<^verbatim>\<open>_evaluateRPN\<close>; the stack has its top first. An entry of the RPN
  array that is a string but no operator is skipped.\<close>

fun evaluate_loop :: "rpn_item list \<Rightarrow> jsnum list \<Rightarrow> error_type + jsnum list" where
  "evaluate_loop [] stack = Inr stack"
| "evaluate_loop (Number n # rpn) stack = evaluate_loop rpn (n # stack)"
| "evaluate_loop (Symbol token # rpn) stack =
     (if isOperator token then
        (case stack of
           b # a # rest \<Rightarrow>
             (case createOperation token of
                Inl err \<Rightarrow> Inl err
              | Inr operation \<Rightarrow>
                  (case execute operation a b of
                     Inl err \<Rightarrow> Inl err
                   | Inr result \<Rightarrow>
                       (if \<not> Number_isFinite result then
                          (if result = PInf \<or> result = NInf then Inl OVERFLOW
                           else Inl SYNTAX_ERROR)
                        else evaluate_loop rpn (result # rest))))
         | _ \<Rightarrow> Inl SYNTAX_ERROR)
      else evaluate_loop rpn stack)"

definition evaluateRPN :: "rpn_item list \<Rightarrow> error_type + jsnum" where
  "evaluateRPN rpn =
     (case evaluate_loop rpn [] of
        Inl err \<Rightarrow> Inl err
      | Inr stack \<Rightarrow>
          (case stack of
             [result] \<Rightarrow> Inr (roundResult result)
           | _ \<Rightarrow> Inl SYNTAX_ERROR))"

text \<open>\<^verbatim>\<open>CalculationEngine.calculate\<close>. Every error of the three steps is a
  \<^verbatim>\<open>CalculatorError\<close> and is thrown on unchanged; nothing else is thrown.\<close>

definition CalculationEngine_calculate :: "jsvalue \<Rightarrow> error_type + jsnum" where
  "CalculationEngine_calculate expression =
     (case validateExpression expression of
        Inl err \<Rightarrow> Inl err
      | Inr _ \<Rightarrow>
          (case expression of
             JSString e \<Rightarrow>
               (case toReversePolishNotation e of
                  Inl err \<Rightarrow> Inl err
                | Inr rpn \<Rightarrow> evaluateRPN rpn)
           | _ \<Rightarrow> Inl INVALID_INPUT))"

section \<open>The calculator state\<close>

text \<open>
  \<^verbatim>\<open>CalculatorState\<close>: the fields of the class as a record, \<^verbatim>\<open>operator\<close> being
  \<^verbatim>\<open>null\<close> (\<open>None\<close>) or a string. A method takes the state and returns the new one,
  together with the error it throws, if any. \<^verbatim>\<open>new Date().toISOString()\<close> reads the
  clock; its value is the argument \<open>now\<close>.
\<close>

definition MAX_DISPLAY_LENGTH :: nat where
  "MAX_DISPLAY_LENGTH = 16"

definition DEFAULT_DISPLAY_VALUE :: string where
  "DEFAULT_DISPLAY_VALUE = ''0''"

definition ERROR_MESSAGE :: string where
  "ERROR_MESSAGE = ''Error''"

record history_entry =
  expression :: string
  result :: jsnum
  timestamp :: string

record CalculatorState =
  currentInput :: string
  previousInput :: string
  operator :: "string option"
  shouldResetDisplay :: bool
  history :: "history_entry list"
  lastCalculation :: "(string \<times> jsnum) option"

text \<open>\<^verbatim>\<open>reset()\<close> sets every field, so the state after it does not depend on the state
  before; the constructor calls it.\<close>

definition reset :: CalculatorState where
  "reset = \<lparr> currentInput = DEFAULT_DISPLAY_VALUE, previousInput = [], operator = None,
             shouldResetDisplay = False, history = [], lastCalculation = None \<rparr>"

definition updateInput :: "string \<Rightarrow> CalculatorState \<Rightarrow> CalculatorState" where
  "updateInput v s =
     (if v = ''.'' then
        (if CHR ''.'' \<in> set (currentInput s) then s
         else s\<lparr>currentInput := currentInput s @ ''.''\<rparr>)
      else if currentInput s = DEFAULT_DISPLAY_VALUE \<or> shouldResetDisplay s then
        s\<lparr>currentInput := v, shouldResetDisplay := False\<rparr>
      else if length (currentInput s) < MAX_DISPLAY_LENGTH then
        s\<lparr>currentInput := currentInput s @ v\<rparr>
      else s)"

text \<open>\<^verbatim>\<open>calculate()\<close>: \<^verbatim>\<open>!this.operator\<close> holds for \<^verbatim>\<open>null\<close> and for the empty string,
  \<^verbatim>\<open>!this.previousInput\<close> for the empty string.\<close>

definition CalculatorState_calculate ::
  "string \<Rightarrow> CalculatorState \<Rightarrow> error_type option \<times> CalculatorState" where
  "CalculatorState_calculate now s =
     (case operator s of
        None \<Rightarrow> (None, s)
      | Some op \<Rightarrow>
          (if op = [] \<or> previousInput s = [] then (None, s)
           else (let expr = previousInput s @ op @ currentInput s in
                 case CalculationEngine_calculate (JSString expr) of
                   Inr r \<Rightarrow>
                     (let pushed = history s @
                            [\<lparr> expression = expr, result = r, timestamp = now \<rparr>]
                      in (None,
                          s\<lparr> history := (if length pushed > 10 then tl pushed else pushed),
                             lastCalculation := Some (expr, r),
                             currentInput := Number_toString r,
                             operator := None,
                             previousInput := [],
                             shouldResetDisplay := True \<rparr>))
                 | Inl err \<Rightarrow>
                     (Some err,
                      s\<lparr> currentInput := ERROR_MESSAGE,
                         operator := None,
                         previousInput := [],
                         shouldResetDisplay := True \<rparr>))))"

text \<open>\<^verbatim>\<open>applyOperator(op)\<close>: an error thrown by the inner \<^verbatim>\<open>calculate()\<close> leaves the
  method before its three assignments.\<close>

definition applyOperator ::
  "string \<Rightarrow> string \<Rightarrow> CalculatorState \<Rightarrow> error_type option \<times> CalculatorState" where
  "applyOperator op now s =
     (case (if operator s \<noteq> None \<and> operator s \<noteq> Some [] \<and> \<not> shouldResetDisplay s
            then CalculatorState_calculate now s else (None, s)) of
        (Some err, s1) \<Rightarrow> (Some err, s1)
      | (None, s1) \<Rightarrow>
          (None, s1\<lparr> previousInput := currentInput s1,
                     operator := Some op,
                     shouldResetDisplay := True \<rparr>))"

definition backspace :: "CalculatorState \<Rightarrow> CalculatorState" where
  "backspace s =
     (if length (currentInput s) > 1 then s\<lparr>currentInput := butlast (currentInput s)\<rparr>
      else s\<lparr>currentInput := DEFAULT_DISPLAY_VALUE\<rparr>)"

definition clear :: "CalculatorState \<Rightarrow> CalculatorState" where
  "clear s = reset"

definition getDisplayValue :: "CalculatorState \<Rightarrow> string" where
  "getDisplayValue s = currentInput s"

definition getHistory :: "CalculatorState \<Rightarrow> history_entry list" where
  "getHistory s = history s"

text \<open>
  A call of a public operation, with the clock reading where the operation may use it,
  and the state after a sequence of calls from a given state. The caller catches what
  an operation throws and goes on with the state the operation left.
\<close>

datatype call =
  UpdateInput string | ApplyOperator string string | Calculate string | Backspace | Clear

fun step :: "CalculatorState \<Rightarrow> call \<Rightarrow> CalculatorState" where
  "step s (UpdateInput v) = updateInput v s"
| "step s (ApplyOperator op now) = snd (applyOperator op now s)"
| "step s (Calculate now) = snd (CalculatorState_calculate now s)"
| "step s Backspace = backspace s"
| "step s Clear = clear s"

definition run :: "call list \<Rightarrow> CalculatorState" where
  "run calls = foldl step reset calls"

section \<open>Notions used in the statements\<close>

text \<open>
  The shapes of a token: a non-empty run of digits and points, or a single other
  character that is not the space.
\<close>

definition digit_run :: "string \<Rightarrow> bool" where
  "digit_run t = list_all (\<lambda>c. isDigit c \<or> c = CHR ''.'') t"

definition token_shape :: "string \<Rightarrow> bool" where
  "token_shape t =
     ((t \<noteq> [] \<and> digit_run t) \<or> (length t = 1 \<and> \<not> digit_run t \<and> t \<noteq> '' ''))"

text \<open>
  The running balance of parentheses after the first \<open>n\<close> characters of an expression:
  opening minus closing ones. An expression is unbalanced when the running balance goes
  negative somewhere or ends non-zero.
\<close>

definition balance_after :: "string \<Rightarrow> nat \<Rightarrow> int" where
  "balance_after e n =
     int (count_list (take n e) (CHR ''('')) - int (count_list (take n e) (CHR '')''))"

definition unbalanced :: "string \<Rightarrow> bool" where
  "unbalanced e =
     (list_ex (\<lambda>n. balance_after e n < 0) [0..<Suc (length e)] \<or>
      balance_after e (length e) \<noteq> 0)"

text \<open>
  The history entry that a call of \<^verbatim>\<open>calculate()\<close> pushes when it is successful, that
  is when it has a pending operation and the engine returns a result (none otherwise);
  the entries that one call of a public operation pushes (\<^verbatim>\<open>applyOperator\<close> calls
  \<^verbatim>\<open>calculate()\<close> when an operation is pending and a new operand was typed); and the
  entries pushed by a sequence of calls since the last \<^verbatim>\<open>clear()\<close>, oldest first.
\<close>

definition recorded_by_calculate :: "string \<Rightarrow> CalculatorState \<Rightarrow> history_entry list" where
  "recorded_by_calculate now s =
     (case operator s of
        None \<Rightarrow> []
      | Some op \<Rightarrow>
          (if op = [] \<or> previousInput s = [] then []
           else (let expr = previousInput s @ op @ currentInput s in
                 case CalculationEngine_calculate (JSString expr) of
                   Inr r \<Rightarrow> [\<lparr> expression = expr, result = r, timestamp = now \<rparr>]
                 | Inl err \<Rightarrow> [])))"

fun recorded_by :: "CalculatorState \<Rightarrow> call \<Rightarrow> history_entry list" where
  "recorded_by s (Calculate now) = recorded_by_calculate now s"
| "recorded_by s (ApplyOperator op now) =
     (if operator s \<noteq> None \<and> operator s \<noteq> Some [] \<and> \<not> shouldResetDisplay s
      then recorded_by_calculate now s else [])"
| "recorded_by s _ = []"

fun recorded_from :: "CalculatorState \<Rightarrow> call list \<Rightarrow> history_entry list \<Rightarrow> history_entry list" where
  "recorded_from s [] acc = acc"
| "recorded_from s (c # cs) acc =
     recorded_from (step s c) cs (if c = Clear then [] else acc @ recorded_by s c)"

definition recorded :: "call list \<Rightarrow> history_entry list" where
  "recorded calls = recorded_from reset calls []"

definition last10 :: "'a list \<Rightarrow> 'a list" where
  "last10 xs = drop (length xs - 10) xs"

text \<open>
  The display contract of the specification: the displayed string is a numeric literal
  (an optional minus sign, digits with an optional fraction or a fraction alone, and an
  optional exponent), the default \<^verbatim>\<open>"0"\<close> or the sentinel \<^verbatim>\<open>"Error"\<close>.
\<close>

definition exponent_part :: "string \<Rightarrow> bool" where
  "exponent_part r =
     (case r of
        [] \<Rightarrow> False
      | c # r1 \<Rightarrow>
          (c = CHR ''e'' \<or> c = CHR ''E'') \<and>
          (let r2 = (case r1 of
                       [] \<Rightarrow> []
                     | sg # r3 \<Rightarrow> (if sg = CHR ''+'' \<or> sg = CHR ''-'' then r3 else r1))
           in r2 \<noteq> [] \<and> list_all isDigit r2))"

definition numeric_literal :: "string \<Rightarrow> bool" where
  "numeric_literal d =
     (let u = (case d of [] \<Rightarrow> [] | c # r \<Rightarrow> (if c = CHR ''-'' then r else d));
          ip = takeWhile isDigit u;
          r1 = dropWhile isDigit u;
          fp = (case r1 of [] \<Rightarrow> [] | c # r \<Rightarrow> (if c = CHR ''.'' then takeWhile isDigit r else []));
          r2 = (case r1 of [] \<Rightarrow> [] | c # r \<Rightarrow> (if c = CHR ''.'' then dropWhile isDigit r else r1))
      in (ip \<noteq> [] \<or> fp \<noteq> []) \<and> (r2 = [] \<or> exponent_part r2))"

definition display_contract :: "string \<Rightarrow> bool" where
  "display_contract d = (numeric_literal d \<or> d = DEFAULT_DISPLAY_VALUE \<or> d = ERROR_MESSAGE)"
text \<open>
  What the state machine keeps in \<^verbatim>\<open>currentInput\<close>. A decimal numeral is what the keypad
  types: digits, then optionally a point and more digits. An operand text is a decimal
  numeral with at most 39 digits (a typed number has at most 16 characters, and the plain
  decimal string of a Number has at most 39 digits); a negative text is a minus sign before
  an operand text; an exponent text is a numeric literal with the letter \<^verbatim>\<open>e\<close>. The
  strings shown are these and the sentinel.
\<close>

fun fraction_tail :: "string \<Rightarrow> bool" where
  "fraction_tail [] = True"
| "fraction_tail (c # cs) =
     (if isDigit c then fraction_tail cs else c = CHR ''.'' \<and> list_all isDigit cs)"

definition decimal_numeral :: "string \<Rightarrow> bool" where
  "decimal_numeral d = (case d of [] \<Rightarrow> False | c # cs \<Rightarrow> isDigit c \<and> fraction_tail cs)"

definition operand_text :: "string \<Rightarrow> bool" where
  "operand_text d = (decimal_numeral d \<and> length (filter isDigit d) \<le> 39)"

definition negative_text :: "string \<Rightarrow> bool" where
  "negative_text d = (case d of [] \<Rightarrow> False | c # u \<Rightarrow> c = CHR ''-'' \<and> operand_text u)"

definition exponent_text :: "string \<Rightarrow> bool" where
  "exponent_text d = (numeric_literal d \<and> CHR ''e'' \<in> set d)"

definition shown :: "string \<Rightarrow> bool" where
  "shown d = (operand_text d \<or> negative_text d \<or> d = ERROR_MESSAGE \<or> exponent_text d)"

text \<open>The Numbers that operand texts denote: finite, of magnitude at most \<open>2\<^bsup>400\<^esup>\<close> and,
  unless zero, at least \<open>2\<^bsup>-400\<^esup>\<close>.\<close>

definition operand :: "jsnum \<Rightarrow> bool" where
  "operand a = (Number_isFinite a \<and> \<bar>val a\<bar> \<le> pow2 400 \<and> (is_zero a \<or> pow2 (- 400) \<le> \<bar>val a\<bar>))"

text \<open>
  The calls that the keypad makes and that do not themselves put the display outside the
  contract. A call is admitted in a state when it is \<^verbatim>\<open>updateInput\<close> with one digit;
  \<^verbatim>\<open>updateInput(".")\<close> where the display has a point already (the call changes nothing)
  or is a numeric literal once the point is appended; \<^verbatim>\<open>applyOperator\<close> with one of the
  five operator symbols; \<^verbatim>\<open>backspace()\<close> where the display has at most one character
  (it becomes \<^verbatim>\<open>"0"\<close>) or is a numeric literal without its last character;
  \<^verbatim>\<open>calculate()\<close> or \<^verbatim>\<open>clear()\<close>. A sequence of calls is admitted from a state when each
  call is admitted in the state it is made in.
\<close>

fun admitted :: "CalculatorState \<Rightarrow> call \<Rightarrow> bool" where
  "admitted s (UpdateInput v) =
     (if v = ''.'' then CHR ''.'' \<in> set (currentInput s) \<or> numeric_literal (currentInput s @ ''.'')
      else length v = 1 \<and> list_all isDigit v)"
| "admitted s (ApplyOperator op now) = isOperator op"
| "admitted s (Calculate now) = True"
| "admitted s Backspace =
     (length (currentInput s) \<le> 1 \<or> numeric_literal (butlast (currentInput s)))"
| "admitted s Clear = True"

fun admitted_run :: "CalculatorState \<Rightarrow> call list \<Rightarrow> bool" where
  "admitted_run s [] = True"
| "admitted_run s (c # cs) = (admitted s c \<and> admitted_run (step s c) cs)"

text \<open>What admitted calls keep true of the state: while a number is being typed the input
  is an operand text, otherwise it is one of the strings shown; the stored operand is
  empty or one of the strings shown; the pending operator is one of the five.\<close>

definition state_inv :: "CalculatorState \<Rightarrow> bool" where
  "state_inv s =
     ((if shouldResetDisplay s then shown (currentInput s) else operand_text (currentInput s)) \<and>
      (previousInput s = [] \<or> shown (previousInput s)) \<and>
      (case operator s of None \<Rightarrow> True | Some op \<Rightarrow> isOperator op))"

text \<open>
  The calls that keep a typed number within the display width: \<^verbatim>\<open>updateInput\<close> with at
  most one character, where the decimal point is typed only on an input of fewer than 16
  characters, on one that has a point already (the call changes nothing) or on a display
  that waits to be reset; and every call of the other operations. The bound
  concerns the input while a number is being typed.
\<close>

fun within_bound_call :: "CalculatorState \<Rightarrow> call \<Rightarrow> bool" where
  "within_bound_call s (UpdateInput v) =
     (if v = ''.''
      then shouldResetDisplay s \<or> CHR ''.'' \<in> set (currentInput s) \<or>
           length (currentInput s) < MAX_DISPLAY_LENGTH
      else length v \<le> 1)"
| "within_bound_call s c = True"

fun within_bound_run :: "CalculatorState \<Rightarrow> call list \<Rightarrow> bool" where
  "within_bound_run s [] = True"
| "within_bound_run s (c # cs) = (within_bound_call s c \<and> within_bound_run (step s c) cs)"

definition typed_within_bound :: "CalculatorState \<Rightarrow> bool" where
  "typed_within_bound s =
     (shouldResetDisplay s \<or> length (currentInput s) \<le> MAX_DISPLAY_LENGTH)"

section \<open>Properties of the engine\<close>

lemma js_strict_eq_zero: "js_strict_eq b (Fin 0) = is_zero b"
  by (cases b) (auto simp: js_strict_eq_def)

lemma calculate_one_div_zero:
  "CalculationEngine_calculate (JSString ''1/0'') = Inl DIVISION_BY_ZERO"
  by code_simp

lemma calculate_one_mod_zero:
  "CalculationEngine_calculate (JSString ''1%0'') = Inl DIVISION_BY_ZERO"
  by code_simp

text \<open>
  Claim C6. Division and modulo throw \<^verbatim>\<open>DIVISION_BY_ZERO\<close> exactly when the right
  operand is zero (\<open>+0\<close> or \<open>-0\<close>, the values for which \<^verbatim>\<open>b === 0\<close> holds), whatever the
  left operand is; in the evaluation loop an operator \<^verbatim>\<open>/\<close> or \<^verbatim>\<open>%\<close> that finds a zero on
  top of the stack ends the evaluation with that error; and \<^verbatim>\<open>calculate("1/0")\<close> and
  \<^verbatim>\<open>calculate("1%0")\<close> fail with it.
\<close>

theorem division_by_zero:
  "(execute DivisionOperation a b = Inl DIVISION_BY_ZERO) = is_zero b \<and>
   (execute ModuloOperation a b = Inl DIVISION_BY_ZERO) = is_zero b \<and>
   evaluate_loop (Symbol ''/'' # rpn) (signed_zero neg # a # rest) = Inl DIVISION_BY_ZERO \<and>
   evaluate_loop (Symbol ''%'' # rpn) (signed_zero neg # a # rest) = Inl DIVISION_BY_ZERO \<and>
   CalculationEngine_calculate (JSString ''1/0'') = Inl DIVISION_BY_ZERO \<and>
   CalculationEngine_calculate (JSString ''1%0'') = Inl DIVISION_BY_ZERO"
  by (simp add: js_strict_eq_zero calculate_one_div_zero calculate_one_mod_zero
      isOperator_def createOperation_def signed_zero_def)

subsection \<open>The tokens\<close>

text \<open>
  Whatever the expression, every token of \<^verbatim>\<open>_tokenizeExpression\<close> is a run of digits and
  points or a single other character: the strings on which \<open>ToNumber\<close> and \<open>parseFloat\<close>
  above are the functions of ECMA-262.
\<close>

lemma tokenize_loop_shapes:
  "list_all token_shape tokens \<Longrightarrow> digit_run currentNumber \<Longrightarrow>
   list_all token_shape (tokenize_loop e tokens currentNumber)"
proof (induction e arbitrary: tokens currentNumber)
  case Nil
  from Nil(2) have "currentNumber \<noteq> [] \<Longrightarrow> token_shape currentNumber"
    by (simp add: token_shape_def)
  with Nil(1) show ?case by simp
next
  case (Cons c cs)
  show ?case
  proof (cases "isDigit c \<or> c = CHR ''.''")
    case True
    with Cons.prems have "digit_run (currentNumber @ [c])" by (simp add: digit_run_def)
    from Cons.IH [OF Cons.prems(1) this] True show ?thesis by simp
  next
    case False
    define tokens1 where "tokens1 = (if currentNumber \<noteq> [] then tokens @ [currentNumber] else tokens)"
    define tokens2 where "tokens2 = (if c \<noteq> CHR '' '' then tokens1 @ [[c]] else tokens1)"
    from Cons.prems(2) have "currentNumber \<noteq> [] \<Longrightarrow> token_shape currentNumber"
      by (simp add: token_shape_def)
    with Cons.prems(1) have t1: "list_all token_shape tokens1"
      by (simp add: tokens1_def)
    from False have "c \<noteq> CHR '' '' \<Longrightarrow> token_shape [c]"
      by (simp add: token_shape_def digit_run_def)
    with t1 have t2: "list_all token_shape tokens2" by (simp add: tokens2_def)
    have step: "tokenize_loop (c # cs) tokens currentNumber = tokenize_loop cs tokens2 []"
      using False by (simp add: Let_def tokens1_def tokens2_def)
    have "digit_run []" by (simp add: digit_run_def)
    from Cons.IH [OF t2 this] show ?thesis
      by (simp only: step)
  qed
qed

lemma tokenizeExpression_shapes: "list_all token_shape (tokenizeExpression e)"
  unfolding tokenizeExpression_def
  by (rule tokenize_loop_shapes) (simp_all add: digit_run_def)

subsection \<open>Known values\<close>

text \<open>
  Two checks of the model against what every JavaScript engine computes: the sum of the
  Numbers \<^verbatim>\<open>0.1\<close> and \<^verbatim>\<open>0.2\<close> prints as \<^verbatim>\<open>0.30000000000000004\<close>, and the examples of
  the repository's documentation (\<^verbatim>\<open>CONTRIBUTING.md\<close>) and tests evaluate as they say.
\<close>

lemma binary64_sum:
  "Number_toString (js_add (parseFloat ''0.1'') (parseFloat ''0.2'')) = ''0.30000000000000004''"
  by code_simp

lemma documented_examples:
  "CalculationEngine_calculate (JSString ''2+2'') = Inr (Fin 4) \<and>
   CalculationEngine_calculate (JSString ''3.14+2.86'') = Inr (Fin 6) \<and>
   CalculationEngine_calculate (JSString ''3+4*2'') = Inr (Fin 11)"
  by code_simp

subsection \<open>Evaluation of particular expressions\<close>

text \<open>An operator on top of the stack stays there when its precedence is not strictly
  greater than that of the incoming operator.\<close>

lemma pop_operators_keeps_not_greater:
  "precedence op2 \<le> precedence op1 \<Longrightarrow>
   pop_operators op1 (symbol op2 # ops) out = Inr (symbol op2 # ops, out)"
  by (cases op2) (auto simp: isOperator_def createOperation_def)

text \<open>
  Claim C1. \<^verbatim>\<open>calculate("1-2-3")\<close> returns 2: an operator is popped from the operator
  stack only when its precedence is strictly greater, so with \<^verbatim>\<open>-\<close> on top of the stack
  a second \<^verbatim>\<open>-\<close> pops nothing, the postfix form is \<^verbatim>\<open>1 2 3 - -\<close>, and the chain is
  evaluated as \<^verbatim>\<open>1-(2-3)\<close>.
\<close>

theorem subtraction_chain_associates_right:
  "pop_operators SubtractionOperation (''-'' # ops) out = Inr (''-'' # ops, out) \<and>
   toReversePolishNotation ''1-2-3'' =
     Inr [Number (Fin 1), Number (Fin 2), Number (Fin 3), Symbol ''-'', Symbol ''-''] \<and>
   CalculationEngine_calculate (JSString ''1-2-3'') = Inr (Fin 2)"
proof -
  have pop: "pop_operators SubtractionOperation (''-'' # ops) out = Inr (''-'' # ops, out)"
    by (simp add: isOperator_def createOperation_def)
  have rpn: "toReversePolishNotation ''1-2-3'' =
     Inr [Number (Fin 1), Number (Fin 2), Number (Fin 3), Symbol ''-'', Symbol ''-'']"
    by code_simp
  have val: "CalculationEngine_calculate (JSString ''1-2-3'') = Inr (Fin 2)"
    by code_simp
  from pop rpn val show ?thesis by simp
qed

text \<open>
  Claim C4 does not hold of the code. The token \<^verbatim>\<open>1.2.3\<close> is no number for
  \<^verbatim>\<open>_isNumber\<close>, matches no branch of the loop over the tokens and is left out:
  \<^verbatim>\<open>calculate("1+2 1.2.3")\<close> passes the validation and returns 3, where the claim
  asks for a \<^verbatim>\<open>SYNTAX_ERROR\<close>.
\<close>

theorem malformed_number_is_dropped:
  "validateExpression (JSString ''1+2 1.2.3'') = Inr () \<and>
   tokenizeExpression ''1+2 1.2.3'' = [''1'', ''+'', ''2'', ''1.2.3''] \<and>
   \<not> isNumber ''1.2.3'' \<and>
   toReversePolishNotation ''1+2 1.2.3'' = Inr [Number (Fin 1), Number (Fin 2), Symbol ''+''] \<and>
   CalculationEngine_calculate (JSString ''1+2 1.2.3'') = Inr (Fin 3)"
  by code_simp

text \<open>
  Claim C8 does not hold of the code. For a rounded value without fractional part
  \<^verbatim>\<open>_roundResult\<close> returns \<^verbatim>\<open>parseInt(rounded)\<close>, which reads the digits at the start of the
  string of the Number. From \<open>10\<^bsup>21\<^esup>\<close> on that string is in exponent notation:
  the raw result of \<^verbatim>\<open>calculate("1000000000000000000000")\<close> is \<open>10\<^bsup>21\<^esup>\<close>, its string is
  \<^verbatim>\<open>1e+21\<close>, and the value returned is 1.
\<close>

theorem round_result_of_large_integer:
  "toReversePolishNotation ''1000000000000000000000'' = Inr [Number (Fin (10 ^ 21))] \<and>
   evaluate_loop [Number (Fin (10 ^ 21))] [] = Inr [Fin (10 ^ 21)] \<and>
   Number_toString (Fin (10 ^ 21)) = ''1e+21'' \<and>
   roundResult (Fin (10 ^ 21)) = Fin 1 \<and>
   CalculationEngine_calculate (JSString ''1000000000000000000000'') = Inr (Fin 1)"
  by code_simp

subsection \<open>Validation\<close>

lemma balance_after_Cons:
  "balance_after (c # cs) (Suc n) =
     (if c = CHR ''('' then 1 else 0) - (if c = CHR '')'' then 1 else 0) + balance_after cs n"
  by (simp add: balance_after_def)

lemma balance_loop_running:
  "0 \<le> b \<Longrightarrow>
   balance_loop e b =
     (if \<exists>n\<le>length e. b + balance_after e n < 0 then - 1 else b + balance_after e (length e))"
proof (induction e arbitrary: b)
  case Nil
  then show ?case by (simp add: balance_after_def)
next
  case (Cons c cs)
  define d :: int where "d = (if c = CHR ''('' then 1 else 0) - (if c = CHR '')'' then 1 else 0)"
  have step: "balance_loop (c # cs) b = (if b + d < 0 then b + d else balance_loop cs (b + d))"
    by (auto simp: d_def Let_def)
  have after: "balance_after (c # cs) (Suc n) = d + balance_after cs n" for n
    by (simp add: balance_after_Cons d_def)
  have zero: "balance_after (c # cs) 0 = 0"
    by (simp add: balance_after_def)
  have ex: "(\<exists>n\<le>length (c # cs). b + balance_after (c # cs) n < 0) =
            (\<exists>m\<le>length cs. b + d + balance_after cs m < 0)"
  proof
    assume "\<exists>n\<le>length (c # cs). b + balance_after (c # cs) n < 0"
    then obtain n where n: "n \<le> length (c # cs)" "b + balance_after (c # cs) n < 0" by blast
    with Cons.prems zero have "n \<noteq> 0" by (cases n) auto
    then obtain m where "n = Suc m" by (cases n) auto
    with n after show "\<exists>m\<le>length cs. b + d + balance_after cs m < 0"
      by (auto simp: algebra_simps)
  next
    assume "\<exists>m\<le>length cs. b + d + balance_after cs m < 0"
    then obtain m where "m \<le> length cs" "b + d + balance_after cs m < 0" by blast
    then have "Suc m \<le> length (c # cs)" "b + balance_after (c # cs) (Suc m) < 0"
      by (auto simp: after algebra_simps)
    then show "\<exists>n\<le>length (c # cs). b + balance_after (c # cs) n < 0" by blast
  qed
  have len: "balance_after (c # cs) (length (c # cs)) = d + balance_after cs (length cs)"
    using after [of "length cs"] by simp
  show ?case
  proof (cases "b + d < 0")
    case True
    have "d = - 1 \<or> d = 0 \<or> d = 1" by (auto simp: d_def)
    with True Cons.prems have bd: "b + d = - 1" by auto
    have "b + d + balance_after cs 0 < 0" using True by (simp add: balance_after_def)
    then have "\<exists>m\<le>length cs. b + d + balance_after cs m < 0" by blast
    with True bd show ?thesis by (simp only: step ex) simp
  next
    case False
    then have "0 \<le> b + d" by simp
    from Cons.IH [OF this] False show ?thesis
      unfolding step ex len by (auto simp: add.assoc)
  qed
qed

lemma balance_loop_unbalanced: "(balance_loop e 0 \<noteq> 0) = unbalanced e"
proof -
  have "list_ex (\<lambda>n. balance_after e n < 0) [0..<Suc (length e)] =
        (\<exists>n\<le>length e. balance_after e n < 0)"
    by (auto simp: list_ex_iff less_Suc_eq_le simp del: upt_Suc)
  then show ?thesis
    using balance_loop_running [of 0 e] by (auto simp: unbalanced_def)
qed

text \<open>Every denylisted pattern contains a letter or an underscore, so a string over the
  alphabet of the engine matches none of them.\<close>

lemma validChar_not_letter:
  "validChar c \<Longrightarrow> to_lower c = c \<and> \<not> (97 \<le> (of_char c :: nat) \<and> (of_char c :: nat) \<le> 122) \<and> c \<noteq> CHR ''_''"
  by (auto simp: validChar_def isDigit_def is_space_def to_lower_def)

lemma match_ci_Cons: "match_ci (p # ps) s = (\<exists>c cs. s = c # cs \<and> to_lower c = p \<and> match_ci ps cs)"
  by (cases s) auto

lemma search_suffix: "search m e \<Longrightarrow> \<exists>s. set s \<subseteq> set e \<and> m s"
proof (induction e)
  case Nil
  then show ?case by auto
next
  case (Cons c cs)
  show ?case
  proof (cases "m (c # cs)")
    case True
    then have "set (c # cs) \<subseteq> set (c # cs) \<and> m (c # cs)" by simp
    then show ?thesis by blast
  next
    case False
    with Cons.prems have "search m cs" by simp
    from Cons.IH [OF this] obtain s where "set s \<subseteq> set cs" "m s" by blast
    then have "set s \<subseteq> set (c # cs) \<and> m s" by auto
    then show ?thesis by blast
  qed
qed

lemma dangerous_has_invalid_char:
  "m \<in> set dangerousPatterns \<Longrightarrow> m s \<Longrightarrow> \<exists>c\<in>set s. \<not> validChar c"
proof -
  assume m: "m \<in> set dangerousPatterns" and s: "m s"
  have first: "\<exists>c\<in>set s. \<not> validChar c"
    if "match_ci (p # ps) s" "97 \<le> (of_char p :: nat) \<and> (of_char p :: nat) \<le> 122 \<or> p = CHR ''_''"
    for p ps
  proof -
    from that(1) obtain c cs where c: "s = c # cs" "to_lower c = p" by (auto simp: match_ci_Cons)
    have "\<not> validChar c"
    proof
      assume "validChar c"
      from validChar_not_letter [OF this] c(2) that(2) show False by auto
    qed
    with c(1) show ?thesis by auto
  qed
  have second: "\<exists>c\<in>set s. \<not> validChar c"
    if "match_ci (p0 # p # ps) s" "97 \<le> (of_char p :: nat) \<and> (of_char p :: nat) \<le> 122"
    for p0 p ps
  proof -
    from that(1) obtain c0 c cs where c: "s = c0 # c # cs" "to_lower c = p"
      by (auto simp: match_ci_Cons)
    have "\<not> validChar c"
    proof
      assume "validChar c"
      from validChar_not_letter [OF this] c(2) that(2) show False by auto
    qed
    with c(1) show ?thesis by auto
  qed
  from m consider "m = match_ci ''eval(''" | "m = match_ci ''function(''" | "m = match_new_Function"
    | "m = match_ci ''.constructor''" | "m = match_ci ''__proto__''" | "m = match_ci ''process.''"
    | "m = match_ci ''require(''" | "m = match_ci ''import(''"
    by (auto simp: dangerousPatterns_def)
  then show ?thesis
  proof cases
    case 1 with s first [of "CHR ''e''" "''val(''"] show ?thesis by simp
  next
    case 2 with s first [of "CHR ''f''" "''unction(''"] show ?thesis by simp
  next
    case 3 with s first [of "CHR ''n''" "''ew''"] show ?thesis by (simp add: match_new_Function_def)
  next
    case 4 with s second [of "CHR ''.''" "CHR ''c''" "''onstructor''"] show ?thesis by simp
  next
    case 5 with s first [of "CHR ''_''" "''_proto__''"] show ?thesis by simp
  next
    case 6 with s first [of "CHR ''p''" "''rocess.''"] show ?thesis by simp
  next
    case 7 with s first [of "CHR ''r''" "''equire(''"] show ?thesis by simp
  next
    case 8 with s first [of "CHR ''i''" "''mport(''"] show ?thesis by simp
  qed
qed

lemma valid_chars_not_dangerous:
  "list_all validChar e \<Longrightarrow> \<not> list_ex (\<lambda>pattern. search pattern e) dangerousPatterns"
proof
  assume v: "list_all validChar e" and "list_ex (\<lambda>pattern. search pattern e) dangerousPatterns"
  then obtain m where m: "m \<in> set dangerousPatterns" "search m e" by (auto simp: list_ex_iff)
  from search_suffix [OF m(2)] obtain s where s: "set s \<subseteq> set e" "m s" by blast
  from dangerous_has_invalid_char [OF m(1) s(2)] s(1) v show False
    by (auto simp: list_all_iff)
qed

lemma calculate_eval_call: "CalculationEngine_calculate (JSString ''eval(1)'') = Inl INVALID_INPUT"
  by code_simp

lemma calculate_open_paren: "CalculationEngine_calculate (JSString ''(1+2'') = Inl SYNTAX_ERROR"
  by code_simp

text \<open>
  Claim C7. \<^verbatim>\<open>calculate\<close> fails with \<^verbatim>\<open>INVALID_INPUT\<close> when its argument is not a
  string, is the empty string, contains a character outside \<^verbatim>\<open>[0-9+\-*/%.()\s]\<close>, or
  matches one of the denylisted patterns; it fails with \<^verbatim>\<open>SYNTAX_ERROR\<close> when the
  argument is a string over that alphabet whose parentheses are unbalanced (the running
  balance goes negative or ends non-zero). Whatever error the validation finds is the outcome of
  \<^verbatim>\<open>calculate\<close>: tokenizer and evaluator are not reached and no value is returned.
  \<^verbatim>\<open>calculate("eval(1)")\<close> fails with \<^verbatim>\<open>INVALID_INPUT\<close> and \<^verbatim>\<open>calculate("(1+2")\<close> with
  \<^verbatim>\<open>SYNTAX_ERROR\<close>.
\<close>

theorem validation_failures:
  "((\<forall>e. v \<noteq> JSString e) \<longrightarrow> CalculationEngine_calculate v = Inl INVALID_INPUT) \<and>
   CalculationEngine_calculate (JSString []) = Inl INVALID_INPUT \<and>
   (list_ex (\<lambda>c. \<not> validChar c) e1 \<longrightarrow>
      CalculationEngine_calculate (JSString e1) = Inl INVALID_INPUT) \<and>
   (list_ex (\<lambda>pattern. search pattern e2) dangerousPatterns \<longrightarrow>
      CalculationEngine_calculate (JSString e2) = Inl INVALID_INPUT) \<and>
   (list_all validChar e3 \<and> unbalanced e3 \<longrightarrow>
      CalculationEngine_calculate (JSString e3) = Inl SYNTAX_ERROR) \<and>
   (validateExpression v2 = Inl err \<longrightarrow> CalculationEngine_calculate v2 = Inl err) \<and>
   CalculationEngine_calculate (JSString ''eval(1)'') = Inl INVALID_INPUT \<and>
   CalculationEngine_calculate (JSString ''(1+2'') = Inl SYNTAX_ERROR"
proof -
  have not_string: "(\<forall>e. v \<noteq> JSString e) \<longrightarrow> CalculationEngine_calculate v = Inl INVALID_INPUT"
    by (cases v) (auto simp: CalculationEngine_calculate_def validateExpression_def)
  have empty: "CalculationEngine_calculate (JSString []) = Inl INVALID_INPUT"
    by (simp add: CalculationEngine_calculate_def validateExpression_def)
  have bad_char: "list_ex (\<lambda>c. \<not> validChar c) e1 \<longrightarrow>
      CalculationEngine_calculate (JSString e1) = Inl INVALID_INPUT"
    by (auto simp: CalculationEngine_calculate_def validateExpression_def validChars_def
        list_ex_iff list_all_iff)
  have deny: "list_ex (\<lambda>pattern. search pattern e2) dangerousPatterns \<longrightarrow>
      CalculationEngine_calculate (JSString e2) = Inl INVALID_INPUT"
    by (simp add: CalculationEngine_calculate_def validateExpression_def)
  have parens: "list_all validChar e3 \<and> unbalanced e3 \<longrightarrow>
      CalculationEngine_calculate (JSString e3) = Inl SYNTAX_ERROR"
  proof
    assume h: "list_all validChar e3 \<and> unbalanced e3"
    then have "e3 \<noteq> []" by (auto simp: unbalanced_def balance_after_def)
    with h valid_chars_not_dangerous [of e3] balance_loop_unbalanced [of e3]
    show "CalculationEngine_calculate (JSString e3) = Inl SYNTAX_ERROR"
      by (simp add: CalculationEngine_calculate_def validateExpression_def validChars_def)
  qed
  have first: "validateExpression v2 = Inl err \<longrightarrow> CalculationEngine_calculate v2 = Inl err"
    by (simp add: CalculationEngine_calculate_def)
  from not_string empty bad_char deny parens first calculate_eval_call calculate_open_paren show ?thesis
    by blast
qed

theorem validation_failures_witness:
  "CalculationEngine_calculate JSUndefined = Inl INVALID_INPUT \<and>
   CalculationEngine_calculate (JSString ''1+a'') = Inl INVALID_INPUT \<and>
   CalculationEngine_calculate (JSString ''new  Function'') = Inl INVALID_INPUT \<and>
   CalculationEngine_calculate (JSString ''1)+(2'') = Inl SYNTAX_ERROR \<and>
   CalculationEngine_calculate (JSString ''(2*3'') = Inl SYNTAX_ERROR"
proof -
  have h1: "\<forall>e. JSUndefined \<noteq> JSString e" by simp
  have h2: "list_ex (\<lambda>c. \<not> validChar c) ''1+a''" by code_simp
  have h3: "list_ex (\<lambda>pattern. search pattern ''new  Function'') dangerousPatterns" by code_simp
  have h4: "list_all validChar ''1)+(2'' \<and> unbalanced ''1)+(2''" by code_simp
  have h5: "validateExpression (JSString ''(2*3'') = Inl SYNTAX_ERROR" by code_simp
  from h1 h2 h3 h4 h5
    validation_failures [of JSUndefined "''1+a''" "''new  Function''" "''1)+(2''"
      "JSString ''(2*3''" SYNTAX_ERROR]
  show ?thesis by blast
qed

subsection \<open>The string of a Number\<close>

text \<open>The string of a finite Number is a numeric literal; those of the other Numbers are
  \<^verbatim>\<open>NaN\<close>, \<^verbatim>\<open>Infinity\<close> and \<^verbatim>\<open>-Infinity\<close>.\<close>

lemma isDigit_int: "isDigit c = (48 \<le> (of_char c :: int) \<and> (of_char c :: int) \<le> 57)"
proof -
  have "(of_char c :: int) = int (of_char c :: nat)" by (simp add: of_nat_of_char)
  then show ?thesis unfolding isDigit_def by linarith
qed

lemma isDigit_char_of: "0 \<le> n \<Longrightarrow> n < 10 \<Longrightarrow> isDigit (char_of (48 + n :: int))"
  by (simp add: isDigit_int)

lemma digits_of_digits: "0 \<le> n \<Longrightarrow> digits_of n \<noteq> [] \<and> list_all isDigit (digits_of n)"
proof (induction n rule: digits_of.induct)
  case (1 n)
  show ?case
  proof (cases "n < 10")
    case True
    with 1(2) show ?thesis by (simp add: digits_of.simps [of n] isDigit_char_of)
  next
    case False
    with 1 have "digits_of (n div 10) \<noteq> [] \<and> list_all isDigit (digits_of (n div 10))" by simp
    moreover have "isDigit (char_of (48 + n mod 10))" by (rule isDigit_char_of) simp_all
    ultimately show ?thesis using False by (simp add: digits_of.simps [of n])
  qed
qed

lemma pick_mem: "pick x k cs = Some c \<Longrightarrow> c \<in> set cs"
proof -
  assume p: "pick x k cs = Some c"
  define fs where "fs = filter (\<lambda>c. rnd (cand_val k c) = Fin x) cs"
  have sub: "set fs \<subseteq> set cs" by (auto simp: fs_def)
  have "c \<in> set fs"
    using p unfolding pick_def fs_def [symmetric]
    by (auto simp: Let_def split: list.splits if_splits)
  with sub show ?thesis by blast
qed

lemma pow10_pos: "0 < pow10 e"
  by (simp add: pow10_def)

lemma candidates_nonneg: "0 < x \<Longrightarrow> (s, n) \<in> set (candidates x n0 k) \<Longrightarrow> 0 \<le> s"
proof -
  assume x: "0 < x" and m: "(s, n) \<in> set (candidates x n0 k)"
  have "0 \<le> x / pow10 (n0 - int k)" using x pow10_pos [of "n0 - int k"] by simp
  then have f: "0 \<le> \<lfloor>x / pow10 (n0 - int k)\<rfloor>" by simp
  from m have "s = \<lfloor>x / pow10 (n0 - int k)\<rfloor> \<or> s = \<lfloor>x / pow10 (n0 - int k)\<rfloor> + 1 \<or>
      s = 10 ^ (k - 1)"
    by (auto simp: candidates_def Let_def split: if_splits)
  with f show ?thesis by auto
qed

lemma shortest_nonneg: "0 < x \<Longrightarrow> shortest x n0 k fuel = (s, n, k') \<Longrightarrow> 0 \<le> s"
proof (induction fuel arbitrary: k)
  case 0
  have "0 \<le> x / pow10 (n0 - int k)" using 0(1) pow10_pos [of "n0 - int k"] by simp
  then have f: "0 \<le> \<lfloor>x / pow10 (n0 - int k)\<rfloor>" by simp
  from 0(2) have "s = \<lfloor>x / pow10 (n0 - int k)\<rfloor>" by auto
  with f show ?case by (simp only:)
next
  case (Suc fuel)
  show ?case
  proof (cases "pick x k (candidates x n0 k)")
    case None
    with Suc show ?thesis by simp
  next
    case (Some c)
    obtain s1 n1 where c: "c = (s1, n1)" by (cases c)
    from pick_mem [OF Some] c have "(s1, n1) \<in> set (candidates x n0 k)" by simp
    from candidates_nonneg [OF Suc.prems(1) this] Some c Suc.prems(2) show ?thesis by simp
  qed
qed

lemma takeWhile_digits_append:
  "list_all isDigit ds \<Longrightarrow> \<not> isDigit c \<Longrightarrow> takeWhile isDigit (ds @ c # r) = ds"
  by (induction ds) auto

lemma dropWhile_digits_append:
  "list_all isDigit ds \<Longrightarrow> \<not> isDigit c \<Longrightarrow> dropWhile isDigit (ds @ c # r) = c # r"
  by (induction ds) auto

lemma takeWhile_all_digits: "list_all isDigit ds \<Longrightarrow> takeWhile isDigit ds = ds"
  by (induction ds) auto

lemma dropWhile_all_digits: "list_all isDigit ds \<Longrightarrow> dropWhile isDigit ds = []"
  by (induction ds) auto

lemma not_digit_chars:
  "\<not> isDigit (CHR ''.'')" "\<not> isDigit (CHR ''e'')" "\<not> isDigit (CHR ''-'')" "\<not> isDigit (CHR ''+'')"
  by (simp_all add: isDigit_def)

lemma digit_zero: "isDigit (CHR ''0'')"
  by (simp add: isDigit_def)

text \<open>The shapes of a numeric literal that \<open>format_pos\<close> produces.\<close>

lemma literal_unsigned:
  "u \<noteq> [] \<Longrightarrow> hd u \<noteq> CHR ''-'' \<Longrightarrow>
   numeric_literal u =
     (let ip = takeWhile isDigit u;
          r1 = dropWhile isDigit u;
          fp = (case r1 of [] \<Rightarrow> [] | c # r \<Rightarrow> (if c = CHR ''.'' then takeWhile isDigit r else []));
          r2 = (case r1 of [] \<Rightarrow> [] | c # r \<Rightarrow> (if c = CHR ''.'' then dropWhile isDigit r else r1))
      in (ip \<noteq> [] \<or> fp \<noteq> []) \<and> (r2 = [] \<or> exponent_part r2))"
  by (cases u) (auto simp: numeric_literal_def)

lemma literal_integer: "ds \<noteq> [] \<Longrightarrow> list_all isDigit ds \<Longrightarrow> numeric_literal ds"
proof -
  assume d: "ds \<noteq> []" "list_all isDigit ds"
  then have "hd ds \<noteq> CHR ''-''" using not_digit_chars(3) by (cases ds) auto
  from literal_unsigned [OF d(1) this] d show ?thesis
    by (simp add: takeWhile_all_digits dropWhile_all_digits)
qed

lemma literal_fraction:
  "ip \<noteq> [] \<Longrightarrow> list_all isDigit ip \<Longrightarrow> list_all isDigit fp \<Longrightarrow>
   numeric_literal (ip @ ''.'' @ fp)"
proof -
  assume d: "ip \<noteq> []" "list_all isDigit ip" "list_all isDigit fp"
  then have h: "hd (ip @ ''.'' @ fp) \<noteq> CHR ''-''" using not_digit_chars(3) by (cases ip) auto
  have n: "ip @ ''.'' @ fp \<noteq> []" by simp
  show ?thesis
    unfolding literal_unsigned [OF n h]
    using d not_digit_chars(1)
    by (simp add: takeWhile_digits_append dropWhile_digits_append takeWhile_all_digits
        dropWhile_all_digits)
qed

lemma exponent_part_signed:
  "es \<noteq> [] \<Longrightarrow> list_all isDigit es \<Longrightarrow> sg = CHR ''+'' \<or> sg = CHR ''-'' \<Longrightarrow>
   exponent_part (CHR ''e'' # sg # es)"
  by (auto simp: exponent_part_def)

lemma literal_exponent:
  "ip \<noteq> [] \<Longrightarrow> list_all isDigit ip \<Longrightarrow> es \<noteq> [] \<Longrightarrow> list_all isDigit es \<Longrightarrow>
   sg = CHR ''+'' \<or> sg = CHR ''-'' \<Longrightarrow>
   numeric_literal (ip @ ''e'' @ [sg] @ es)"
proof -
  assume d: "ip \<noteq> []" "list_all isDigit ip" "es \<noteq> []" "list_all isDigit es"
    and sg: "sg = CHR ''+'' \<or> sg = CHR ''-''"
  from d have h: "hd (ip @ ''e'' @ [sg] @ es) \<noteq> CHR ''-''" using not_digit_chars(3) by (cases ip) auto
  have n: "ip @ ''e'' @ [sg] @ es \<noteq> []" by simp
  show ?thesis
    unfolding literal_unsigned [OF n h]
    using d not_digit_chars(2) exponent_part_signed [OF d(3) d(4) sg]
    by (simp add: takeWhile_digits_append dropWhile_digits_append)
qed

lemma literal_fraction_exponent:
  "ip \<noteq> [] \<Longrightarrow> list_all isDigit ip \<Longrightarrow> list_all isDigit fp \<Longrightarrow>
   es \<noteq> [] \<Longrightarrow> list_all isDigit es \<Longrightarrow> sg = CHR ''+'' \<or> sg = CHR ''-'' \<Longrightarrow>
   numeric_literal (ip @ ''.'' @ fp @ ''e'' @ [sg] @ es)"
proof -
  assume d: "ip \<noteq> []" "list_all isDigit ip" "list_all isDigit fp" "es \<noteq> []" "list_all isDigit es"
    and sg: "sg = CHR ''+'' \<or> sg = CHR ''-''"
  from d have h: "hd (ip @ ''.'' @ fp @ ''e'' @ [sg] @ es) \<noteq> CHR ''-''"
    using not_digit_chars(3) by (cases ip) auto
  have n: "ip @ ''.'' @ fp @ ''e'' @ [sg] @ es \<noteq> []" by simp
  show ?thesis
    unfolding literal_unsigned [OF n h]
    using d not_digit_chars(1,2) exponent_part_signed [OF d(4) d(5) sg]
    by (simp add: takeWhile_digits_append dropWhile_digits_append)
qed

lemma literal_negative: "numeric_literal u \<Longrightarrow> u \<noteq> [] \<Longrightarrow> hd u \<noteq> CHR ''-'' \<Longrightarrow> numeric_literal (''-'' @ u)"
  by (cases u) (auto simp: numeric_literal_def)

lemma format_pos_literal:
  "0 < x \<Longrightarrow> numeric_literal (format_pos x) \<and> format_pos x \<noteq> [] \<and> hd (format_pos x) \<noteq> CHR ''-''"
proof -
  assume x: "0 < x"
  obtain s n k where sh: "shortest x (flog10 x + 1) 1 17 = (s, n, k)"
    by (cases "shortest x (flog10 x + 1) 1 17")
  from shortest_nonneg [OF x sh] have "0 \<le> s" .
  from digits_of_digits [OF this] have ds: "digits_of s \<noteq> []" "list_all isDigit (digits_of s)"
    by simp_all
  define ds where "ds = digits_of s"
  define es where "es = digits_of \<bar>n - 1\<bar>"
  have es: "es \<noteq> []" "list_all isDigit es"
    using digits_of_digits [of "\<bar>n - 1\<bar>"] by (simp_all add: es_def)
  from ds have d: "ds \<noteq> []" "list_all isDigit ds" by (simp_all add: ds_def)
  have zeros: "list_all isDigit (replicate m (CHR ''0''))" for m
    by (induction m) (simp_all add: digit_zero)
  have take_d: "list_all isDigit (take m ds)" for m
    using d(2) by (auto simp: list_all_iff dest: in_set_takeD)
  have drop_d: "list_all isDigit (drop m ds)" for m
    using d(2) by (auto simp: list_all_iff dest: in_set_dropD)
  have hd_digit: "u \<noteq> [] \<Longrightarrow> list_all isDigit u \<Longrightarrow> hd (u @ r) \<noteq> CHR ''-''" for u r
    using not_digit_chars(3) by (cases u) auto
  define sg where "sg = (if n - 1 < 0 then CHR ''-'' else CHR ''+'')"
  have sg: "sg = CHR ''+'' \<or> sg = CHR ''-''" by (simp add: sg_def)
  have f: "format_pos x =
     (if int k \<le> n \<and> n \<le> 21 then ds @ replicate (nat (n - int k)) (CHR ''0'')
      else if 0 < n \<and> n \<le> 21 then take (nat n) ds @ ''.'' @ drop (nat n) ds
      else if - 6 < n \<and> n \<le> 0 then ''0.'' @ replicate (nat (- n)) (CHR ''0'') @ ds
      else if k = 1 then ds @ ''e'' @ [sg] @ es
      else take 1 ds @ ''.'' @ drop 1 ds @ ''e'' @ [sg] @ es)"
    unfolding format_pos_def sh by (simp add: Let_def ds_def es_def sg_def)
  consider (a) "int k \<le> n \<and> n \<le> 21"
    | (b) "\<not> (int k \<le> n \<and> n \<le> 21)" "0 < n \<and> n \<le> 21"
    | (c) "\<not> (int k \<le> n \<and> n \<le> 21)" "\<not> (0 < n \<and> n \<le> 21)" "- 6 < n \<and> n \<le> 0"
    | (d) "\<not> (int k \<le> n \<and> n \<le> 21)" "\<not> (0 < n \<and> n \<le> 21)" "\<not> (- 6 < n \<and> n \<le> 0)" "k = 1"
    | (e) "\<not> (int k \<le> n \<and> n \<le> 21)" "\<not> (0 < n \<and> n \<le> 21)" "\<not> (- 6 < n \<and> n \<le> 0)" "k \<noteq> 1"
    by blast
  then show ?thesis
  proof cases
    case a
    have fx: "format_pos x = ds @ replicate (nat (n - int k)) (CHR ''0'')"
      using a by (simp only: f if_P if_not_P if_True if_False simp_thms)
    have "list_all isDigit (ds @ replicate (nat (n - int k)) (CHR ''0''))"
      using d(2) zeros by simp
    with d(1) literal_integer [of "ds @ replicate (nat (n - int k)) (CHR ''0'')"]
      hd_digit [OF d] show ?thesis
      unfolding fx by simp
  next
    case b
    have fx: "format_pos x = take (nat n) ds @ ''.'' @ drop (nat n) ds"
      using b by (simp only: f if_P if_not_P if_True if_False simp_thms)
    from b d(1) have t: "take (nat n) ds \<noteq> []" by simp
    from literal_fraction [OF t take_d drop_d] hd_digit [OF t take_d] t show ?thesis
      unfolding fx by simp
  next
    case c
    have fx: "format_pos x = ''0.'' @ replicate (nat (- n)) (CHR ''0'') @ ds"
      using c by (simp only: f if_P if_not_P if_True if_False simp_thms)
    have z: "''0'' \<noteq> []" "list_all isDigit ''0''" by (simp_all add: digit_zero)
    have "list_all isDigit (replicate (nat (- n)) (CHR ''0'') @ ds)" using zeros d(2) by simp
    from literal_fraction [OF z this] show ?thesis
      unfolding fx by simp
  next
    case d1: d
    have fx: "format_pos x = ds @ ''e'' @ [sg] @ es"
      using d1 by (simp only: f if_P if_not_P if_True if_False simp_thms)
    from literal_exponent [OF d es sg] hd_digit [OF d] d(1) show ?thesis
      unfolding fx by simp
  next
    case e
    have fx: "format_pos x = take 1 ds @ ''.'' @ drop 1 ds @ ''e'' @ [sg] @ es"
      using e by (simp only: f if_P if_not_P if_True if_False simp_thms)
    from d(1) have t: "take 1 ds \<noteq> []" by simp
    from literal_fraction_exponent [OF t take_d drop_d es sg]
      hd_digit [OF t take_d] t show ?thesis
      unfolding fx by simp
  qed
qed

lemma Number_toString_shape:
  "numeric_literal (Number_toString r) \<or>
   Number_toString r = ''NaN'' \<or> Number_toString r = ''Infinity'' \<or>
   Number_toString r = ''-Infinity''"
proof (cases r)
  case (Fin q)
  have zero: "numeric_literal ''0''" by (rule literal_integer) (simp_all add: digit_zero)
  show ?thesis
  proof (cases "q = 0")
    case True
    with Fin zero show ?thesis by simp
  next
    case False
    show ?thesis
    proof (cases "q < 0")
      case True
      then have "0 < - q" by simp
      from format_pos_literal [OF this] literal_negative [of "format_pos (- q)"] Fin True False
      show ?thesis by simp
    next
      case pos: False
      with False have "0 < q" by simp
      from format_pos_literal [OF this] Fin pos False show ?thesis by simp
    qed
  qed
next
  case NegZero
  have "numeric_literal ''0''" by (rule literal_integer) (simp_all add: digit_zero)
  with NegZero show ?thesis by simp
qed simp_all

lemma decimal_numeral_literal: "decimal_numeral d \<Longrightarrow> numeric_literal d"
proof -
  assume dn: "decimal_numeral d"
  have tail: "fraction_tail cs \<Longrightarrow>
      list_all isDigit cs \<or> (\<exists>ip fp. cs = ip @ ''.'' @ fp \<and> list_all isDigit ip \<and> list_all isDigit fp)"
    for cs
  proof (induction cs)
    case Nil
    then show ?case by simp
  next
    case (Cons c cs)
    show ?case
    proof (cases "isDigit c")
      case True
      with Cons consider "list_all isDigit cs"
        | ip fp where "cs = ip @ ''.'' @ fp" "list_all isDigit ip" "list_all isDigit fp"
        by auto
      then show ?thesis
      proof cases
        case 1
        with True show ?thesis by simp
      next
        case 2
        with True have "c # cs = (c # ip) @ ''.'' @ fp \<and> list_all isDigit (c # ip) \<and> list_all isDigit fp"
          by simp
        then show ?thesis by blast
      qed
    next
      case False
      with Cons.prems have "c # cs = [] @ ''.'' @ cs \<and> list_all isDigit [] \<and> list_all isDigit cs"
        by simp
      then show ?thesis by blast
    qed
  qed
  from dn obtain c cs where d: "d = c # cs" "isDigit c" "fraction_tail cs"
    by (cases d) (auto simp: decimal_numeral_def)
  from tail [OF d(3)] consider "list_all isDigit cs"
    | ip fp where "cs = ip @ ''.'' @ fp" "list_all isDigit ip" "list_all isDigit fp"
    by auto
  then show ?thesis
  proof cases
    case 1
    with d literal_integer [of d] show ?thesis by simp
  next
    case 2
    with d literal_fraction [of "c # ip" fp] show ?thesis by simp
  qed
qed

subsection \<open>Decimal numerals\<close>

lemma isDigit_not_dot: "isDigit c \<Longrightarrow> c \<noteq> CHR ''.''"
  by (auto simp: isDigit_def)

lemma fraction_tail_digits: "list_all isDigit cs \<Longrightarrow> fraction_tail cs"
  by (induction cs) auto

lemma fraction_tail_snoc_digit: "fraction_tail cs \<Longrightarrow> isDigit c \<Longrightarrow> fraction_tail (cs @ [c])"
  by (induction cs) (auto split: if_splits)

lemma fraction_tail_snoc_dot:
  "fraction_tail cs \<Longrightarrow> CHR ''.'' \<notin> set cs \<Longrightarrow> fraction_tail (cs @ ''.'')"
  by (induction cs) (auto split: if_splits)

lemma list_all_butlast: "list_all P cs \<Longrightarrow> list_all P (butlast cs)"
  by (induction cs) auto

lemma fraction_tail_butlast: "fraction_tail cs \<Longrightarrow> fraction_tail (butlast cs)"
  by (induction cs) (auto split: if_splits simp: list_all_butlast)

lemma decimal_numeral_snoc_digit:
  "decimal_numeral d \<Longrightarrow> isDigit c \<Longrightarrow> decimal_numeral (d @ [c])"
  by (cases d) (auto simp: decimal_numeral_def fraction_tail_snoc_digit)

lemma decimal_numeral_append_digit:
  "decimal_numeral d \<Longrightarrow> length v = 1 \<Longrightarrow> list_all isDigit v \<Longrightarrow> decimal_numeral (d @ v)"
  by (cases v) (auto simp: decimal_numeral_snoc_digit)

lemma decimal_numeral_snoc_dot:
  "decimal_numeral d \<Longrightarrow> CHR ''.'' \<notin> set d \<Longrightarrow> decimal_numeral (d @ ''.'')"
  by (cases d) (auto simp: decimal_numeral_def fraction_tail_snoc_dot)

lemma decimal_numeral_butlast:
  "decimal_numeral d \<Longrightarrow> length d > 1 \<Longrightarrow> decimal_numeral (butlast d)"
  by (cases d) (auto simp: decimal_numeral_def fraction_tail_butlast)

lemma decimal_numeral_digit: "length v = 1 \<Longrightarrow> list_all isDigit v \<Longrightarrow> decimal_numeral v"
  by (cases v) (auto simp: decimal_numeral_def)

lemma decimal_numeral_default: "decimal_numeral DEFAULT_DISPLAY_VALUE"
  by (simp add: decimal_numeral_def DEFAULT_DISPLAY_VALUE_def isDigit_def)

subsection \<open>Rounding within the range of the Numbers\<close>

text \<open>A rational below \<open>2\<^bsup>1000\<^esup>\<close> in magnitude rounds to a finite Number of at most twice
  the magnitude, and of at least half of it when it is not below \<open>2\<^bsup>-1000\<^esup>\<close>. The
  operators on finite Numbers inherit the bounds.\<close>

lemma pow2_powi: "pow2 e = 2 powi e"
  by (simp add: pow2_def power_int_def field_simps)

lemma pow10_powi: "pow10 e = 10 powi e"
  by (simp add: pow10_def power_int_def field_simps)

lemma pow2_mono: "e \<le> e' \<Longrightarrow> pow2 e \<le> pow2 e'"
  by (simp add: pow2_powi power_int_increasing)

lemma pow2_gt0: "0 < pow2 e"
  by (simp add: pow2_powi)

lemma flog2_le: "0 < a \<Longrightarrow> pow2 (flog2 a) \<le> a"
proof -
  assume a: "0 < a"
  obtain p d where qd: "quotient_of a = (p, d)" by (cases "quotient_of a")
  from quotient_of_denom_pos [OF qd] have d: "0 < d" .
  from quotient_of_div [OF qd] have ad: "a = of_int p / of_int d" .
  with a d have p: "0 < p" by (simp add: zero_less_divide_iff)
  from bitlen_bounds [OF p] have bp: "2 ^ nat (bitlen p - 1) \<le> p" by simp
  from bitlen_bounds [OF d] have bd: "d < 2 ^ nat (bitlen d)" by simp
  have lp: "1 \<le> bitlen p"
  proof (rule ccontr)
    assume "\<not> 1 \<le> bitlen p"
    then have "nat (bitlen p) = 0" by simp
    with bitlen_bounds [OF p] p show False by simp
  qed
  have ld: "1 \<le> bitlen d"
  proof (rule ccontr)
    assume "\<not> 1 \<le> bitlen d"
    then have "nat (bitlen d) = 0" by simp
    with bitlen_bounds [OF d] d show False by simp
  qed
  define e0 where "e0 = bitlen p - bitlen d"
  show ?thesis
  proof (cases "pow2 e0 \<le> a")
    case True
    then show ?thesis by (simp add: flog2_def qd e0_def Let_def)
  next
    case False
    then have f: "flog2 a = e0 - 1" by (simp add: flog2_def qd e0_def Let_def)
    have "(2::rat) powi (e0 - 1) = 2 powi (bitlen p - 1) / 2 powi (bitlen d)"
      by (simp add: e0_def power_int_diff)
    also have "\<dots> = of_int (2 ^ nat (bitlen p - 1)) / of_int (2 ^ nat (bitlen d))"
      using lp ld by (simp add: power_int_def)
    also have "\<dots> \<le> of_int p / of_int d"
      using bp bd d p by (intro frac_le) (simp_all del: of_int_power)
    finally have "2 powi (e0 - 1) \<le> a" by (simp add: ad)
    then show ?thesis by (simp only: pow2_powi f)
  qed
qed

lemma round_half_even_upper: "0 \<le> y \<Longrightarrow> 0 \<le> round_half_even y \<and> of_int (round_half_even y) \<le> 2 * y"
proof -
  assume y: "0 \<le> y"
  define f where "f = \<lfloor>y\<rfloor>"
  have f0: "0 \<le> f" using y by (simp add: f_def)
  then have f1: "0 \<le> (of_int f :: rat)" by simp
  have fy: "of_int f \<le> y" "y < of_int f + 1" by (simp_all add: f_def) linarith
  have "round_half_even y = f \<or> (round_half_even y = f + 1 \<and> 1 / 2 \<le> y - of_int f)"
    by (auto simp: round_half_even_def Let_def f_def [symmetric])
  then show ?thesis
  proof
    assume "round_half_even y = f"
    with f0 fy y show ?thesis by simp
  next
    assume h: "round_half_even y = f + 1 \<and> 1 / 2 \<le> y - of_int f"
    then have "of_int (f + 1) \<le> 2 * y" using f1 by simp
    with h f0 show ?thesis by simp
  qed
qed

lemma round_half_even_lower: "1 \<le> y \<Longrightarrow> y \<le> 2 * of_int (round_half_even y)"
proof -
  assume y: "1 \<le> y"
  define f where "f = \<lfloor>y\<rfloor>"
  have fy: "of_int f \<le> y" "y < of_int f + 1" by (simp_all add: f_def) linarith
  have "round_half_even y = f \<or> round_half_even y = f + 1"
    by (auto simp: round_half_even_def Let_def f_def [symmetric])
  then show ?thesis
  proof
    assume h: "round_half_even y = f"
    have "1 \<le> f" using y by (simp add: f_def le_floor_iff)
    then have "1 \<le> (of_int f :: rat)" by simp
    with fy have "y \<le> 2 * of_int f" by linarith
    with h show ?thesis by simp
  next
    assume h: "round_half_even y = f + 1"
    from fy y have "y \<le> 2 * of_int (f + 1)" by simp
    with h show ?thesis by simp
  qed
qed

lemma rnd_finite:
  "\<bar>q\<bar> < pow2 1000 \<Longrightarrow> Number_isFinite (rnd q) \<and> \<bar>val (rnd q)\<bar> \<le> 2 * \<bar>q\<bar>"
proof (cases "q = 0")
  case True
  then show ?thesis by (simp add: rnd_def Number_isFinite_def)
next
  case False
  assume b: "\<bar>q\<bar> < pow2 1000"
  define a where "a = \<bar>q\<bar>"
  have a: "0 < a" using False by (simp add: a_def)
  define e where "e = max (flog2 a) (- 1022) - 52"
  define m where "m = round_half_even (a / pow2 e)"
  have "flog2 a < 1000"
  proof (rule ccontr)
    assume "\<not> flog2 a < 1000"
    then have "pow2 1000 \<le> pow2 (flog2 a)" by (intro pow2_mono) simp
    with flog2_le [OF a] b show False by (simp add: a_def)
  qed
  then have e: "e < 971" by (simp add: e_def)
  have "0 \<le> a / pow2 e" using a pow2_gt0 [of e] by simp
  from round_half_even_upper [OF this] have m: "0 \<le> m" "of_int m \<le> 2 * (a / pow2 e)"
    by (simp_all add: m_def)
  from m(2) pow2_gt0 [of e] have me: "of_int m * pow2 e \<le> 2 * a"
    by (simp add: field_simps)
  have r: "rnd q = (if m = 0 then signed_zero (q < 0)
      else Fin (if q < 0 then - (of_int m * pow2 e) else of_int m * pow2 e))"
    unfolding rnd_def Let_def a_def [symmetric] e_def [symmetric] m_def [symmetric]
    using False e by simp
  have "0 \<le> of_int m * pow2 e" using m(1) pow2_gt0 [of e] by simp
  with me show ?thesis
    by (auto simp: r Number_isFinite_def signed_zero_def a_def)
qed

lemma rnd_lower:
  "pow2 (- 1000) \<le> \<bar>q\<bar> \<Longrightarrow> \<bar>q\<bar> < pow2 1000 \<Longrightarrow> \<bar>q\<bar> \<le> 2 * \<bar>val (rnd q)\<bar>"
proof -
  assume lo: "pow2 (- 1000) \<le> \<bar>q\<bar>" and b: "\<bar>q\<bar> < pow2 1000"
  define a where "a = \<bar>q\<bar>"
  have a: "0 < a" using lo pow2_gt0 [of "- 1000"] by (simp add: a_def)
  then have q0: "q \<noteq> 0" by (auto simp: a_def)
  define e where "e = max (flog2 a) (- 1022) - 52"
  define m where "m = round_half_even (a / pow2 e)"
  have "flog2 a < 1000"
  proof (rule ccontr)
    assume "\<not> flog2 a < 1000"
    then have "pow2 1000 \<le> pow2 (flog2 a)" by (intro pow2_mono) simp
    with flog2_le [OF a] b show False by (simp add: a_def)
  qed
  then have e: "e < 971" by (simp add: e_def)
  have "pow2 e \<le> a"
  proof (cases "- 1022 \<le> flog2 a")
    case True
    then have "pow2 e \<le> pow2 (flog2 a)" by (intro pow2_mono) (simp add: e_def)
    with flog2_le [OF a] show ?thesis by simp
  next
    case False
    then have "pow2 e \<le> pow2 (- 1000)" by (intro pow2_mono) (simp add: e_def)
    with lo show ?thesis by (simp add: a_def)
  qed
  then have "1 \<le> a / pow2 e" using pow2_gt0 [of e] by (simp add: field_simps)
  from round_half_even_lower [OF this] have m: "a / pow2 e \<le> 2 * of_int m"
    by (simp add: m_def)
  then have me: "a \<le> 2 * (of_int m * pow2 e)" using pow2_gt0 [of e] by (simp add: field_simps)
  have "m \<noteq> 0" using m a pow2_gt0 [of e] by (auto simp: field_simps)
  then have r: "rnd q = Fin (if q < 0 then - (of_int m * pow2 e) else of_int m * pow2 e)"
    unfolding rnd_def Let_def a_def [symmetric] e_def [symmetric] m_def [symmetric]
    using q0 e by simp
  have "0 \<le> of_int m * pow2 e" using me a by simp
  with me show ?thesis by (auto simp: r a_def)
qed

lemma finite_cases: "Number_isFinite a \<Longrightarrow> (\<exists>q. a = Fin q) \<or> a = NegZero"
  by (cases a) (simp_all add: Number_isFinite_def)

lemma js_add_finite:
  "Number_isFinite a \<Longrightarrow> Number_isFinite b \<Longrightarrow> \<bar>val a\<bar> + \<bar>val b\<bar> < pow2 1000 \<Longrightarrow>
   Number_isFinite (js_add a b) \<and> \<bar>val (js_add a b)\<bar> \<le> 2 * (\<bar>val a\<bar> + \<bar>val b\<bar>)"
proof -
  assume f: "Number_isFinite a" "Number_isFinite b" and b: "\<bar>val a\<bar> + \<bar>val b\<bar> < pow2 1000"
  have tri: "\<bar>val a + val b\<bar> \<le> \<bar>val a\<bar> + \<bar>val b\<bar>" by simp
  with b have "\<bar>val a + val b\<bar> < pow2 1000" by simp
  from rnd_finite [OF this] have r0: "Number_isFinite (rnd (val a + val b))"
    "\<bar>val (rnd (val a + val b))\<bar> \<le> 2 * \<bar>val a + val b\<bar>" by simp_all
  have "2 * \<bar>val a + val b\<bar> \<le> 2 * (\<bar>val a\<bar> + \<bar>val b\<bar>)"
    using tri by (intro mult_left_mono) simp_all
  with r0(2) have "\<bar>val (rnd (val a + val b))\<bar> \<le> 2 * (\<bar>val a\<bar> + \<bar>val b\<bar>)"
    by (rule order_trans)
  with r0(1) have r: "Number_isFinite (rnd (val a + val b))"
    "\<bar>val (rnd (val a + val b))\<bar> \<le> 2 * (\<bar>val a\<bar> + \<bar>val b\<bar>)" by simp_all
  have "js_add a b = NegZero \<or> js_add a b = rnd (val a + val b)"
    using f by (auto simp: js_add_def Number_isFinite_def)
  with r show ?thesis by (auto simp: Number_isFinite_def)
qed

lemma js_neg_finite:
  "Number_isFinite b \<Longrightarrow> Number_isFinite (js_neg b) \<and> \<bar>val (js_neg b)\<bar> = \<bar>val b\<bar>"
  by (cases b) (simp_all add: Number_isFinite_def)

lemma js_mul_finite:
  "Number_isFinite a \<Longrightarrow> Number_isFinite b \<Longrightarrow> \<bar>val a\<bar> * \<bar>val b\<bar> < pow2 1000 \<Longrightarrow>
   Number_isFinite (js_mul a b) \<and> \<bar>val (js_mul a b)\<bar> \<le> 2 * (\<bar>val a\<bar> * \<bar>val b\<bar>)"
proof -
  assume f: "Number_isFinite a" "Number_isFinite b" and b: "\<bar>val a\<bar> * \<bar>val b\<bar> < pow2 1000"
  then have "\<bar>val a * val b\<bar> < pow2 1000" by (simp add: abs_mult)
  from rnd_finite [OF this] have r: "Number_isFinite (rnd (val a * val b))"
    "\<bar>val (rnd (val a * val b))\<bar> \<le> 2 * (\<bar>val a\<bar> * \<bar>val b\<bar>)" by (simp_all add: abs_mult)
  have "js_mul a b = NegZero \<or> js_mul a b = Fin 0 \<or> js_mul a b = rnd (val a * val b)"
    using f by (auto simp: js_mul_def Number_isFinite_def Let_def signed_zero_def)
  with r show ?thesis by (auto simp: Number_isFinite_def)
qed

lemma js_div_finite:
  "Number_isFinite a \<Longrightarrow> Number_isFinite b \<Longrightarrow> \<not> is_zero b \<Longrightarrow>
   \<bar>val a\<bar> / \<bar>val b\<bar> < pow2 1000 \<Longrightarrow>
   Number_isFinite (js_div a b) \<and> \<bar>val (js_div a b)\<bar> \<le> 2 * (\<bar>val a\<bar> / \<bar>val b\<bar>)"
proof -
  assume f: "Number_isFinite a" "Number_isFinite b" "\<not> is_zero b"
    and b: "\<bar>val a\<bar> / \<bar>val b\<bar> < pow2 1000"
  then have "\<bar>val a / val b\<bar> < pow2 1000" by simp
  from rnd_finite [OF this] have r: "Number_isFinite (rnd (val a / val b))"
    "\<bar>val (rnd (val a / val b))\<bar> \<le> 2 * (\<bar>val a\<bar> / \<bar>val b\<bar>)" by simp_all
  have "js_div a b = NegZero \<or> js_div a b = Fin 0 \<or> js_div a b = rnd (val a / val b)"
    using f by (auto simp: js_div_def Number_isFinite_def Let_def signed_zero_def)
  with r show ?thesis by (auto simp: Number_isFinite_def)
qed

lemma js_mod_finite:
  "Number_isFinite a \<Longrightarrow> Number_isFinite b \<Longrightarrow> \<not> is_zero b \<Longrightarrow> \<bar>val a\<bar> < pow2 1000 \<Longrightarrow>
   Number_isFinite (js_mod a b) \<and> \<bar>val (js_mod a b)\<bar> \<le> 2 * \<bar>val a\<bar>"
proof -
  assume f: "Number_isFinite a" "Number_isFinite b" "\<not> is_zero b" and b: "\<bar>val a\<bar> < pow2 1000"
  from f(2,3) have vb: "0 < \<bar>val b\<bar>" by (cases b) (simp_all add: Number_isFinite_def)
  define r where "r = \<bar>val a\<bar> - \<bar>val b\<bar> * of_int \<lfloor>\<bar>val a\<bar> / \<bar>val b\<bar>\<rfloor>"
  have "0 \<le> \<bar>val a\<bar> / \<bar>val b\<bar>" by simp
  then have fl: "0 \<le> \<lfloor>\<bar>val a\<bar> / \<bar>val b\<bar>\<rfloor>" by simp
  then have "0 \<le> \<bar>val b\<bar> * of_int \<lfloor>\<bar>val a\<bar> / \<bar>val b\<bar>\<rfloor>" by simp
  then have r1: "r \<le> \<bar>val a\<bar>" by (simp add: r_def)
  have "of_int \<lfloor>\<bar>val a\<bar> / \<bar>val b\<bar>\<rfloor> \<le> \<bar>val a\<bar> / \<bar>val b\<bar>" by simp
  then have "\<bar>val b\<bar> * of_int \<lfloor>\<bar>val a\<bar> / \<bar>val b\<bar>\<rfloor> \<le> \<bar>val b\<bar> * (\<bar>val a\<bar> / \<bar>val b\<bar>)"
    using vb by (intro mult_left_mono) simp_all
  also have "\<dots> = \<bar>val a\<bar>" using vb by simp
  finally have r0: "0 \<le> r" by (simp add: r_def)
  from r0 r1 b have "\<bar>r\<bar> < pow2 1000" "\<bar>- r\<bar> < pow2 1000" by simp_all
  from rnd_finite [OF this(1)] rnd_finite [OF this(2)] r0 r1
  have rr: "Number_isFinite (rnd r)" "\<bar>val (rnd r)\<bar> \<le> 2 * \<bar>val a\<bar>"
    "Number_isFinite (rnd (- r))" "\<bar>val (rnd (- r))\<bar> \<le> 2 * \<bar>val a\<bar>" by simp_all
  have "js_mod a b = a \<or> js_mod a b = NegZero \<or> js_mod a b = Fin 0 \<or> js_mod a b = rnd r \<or>
      js_mod a b = rnd (- r)"
    using f unfolding js_mod_def Let_def r_def [symmetric]
    by (auto simp: Number_isFinite_def signed_zero_def)
  with rr f(1) show ?thesis by (auto simp: Number_isFinite_def)
qed

lemma Math_round_finite:
  "Number_isFinite a \<Longrightarrow> \<bar>val a\<bar> + 1 < pow2 1000 \<Longrightarrow>
   Number_isFinite (Math_round a) \<and> \<bar>val (Math_round a)\<bar> \<le> 2 * (\<bar>val a\<bar> + 1)"
proof (cases a)
  case (Fin q)
  assume b: "\<bar>val a\<bar> + 1 < pow2 1000"
  define n where "n = \<lfloor>q + 1 / 2\<rfloor>"
  have "of_int n \<le> q + 1 / 2" "q + 1 / 2 < of_int n + 1" by (simp_all add: n_def) linarith
  then have nb: "\<bar>of_int n :: rat\<bar> \<le> \<bar>q\<bar> + 1" by linarith
  with b Fin have "\<bar>of_int n :: rat\<bar> < pow2 1000" by simp
  from rnd_finite [OF this] nb have r: "Number_isFinite (rnd (of_int n))"
    "\<bar>val (rnd (of_int n))\<bar> \<le> 2 * (\<bar>q\<bar> + 1)" by simp_all
  have "Math_round a = NegZero \<or> Math_round a = Fin 0 \<or> Math_round a = rnd (of_int n)"
    using Fin by (auto simp: Let_def n_def signed_zero_def)
  with r Fin show ?thesis by (auto simp: Number_isFinite_def)
qed (simp_all add: Number_isFinite_def)

lemma is_zero_val: "Number_isFinite a \<Longrightarrow> is_zero a = (val a = 0)"
  by (cases a) (simp_all add: Number_isFinite_def)

lemma int_of_digits_snoc:
  "int_of_digits (Z @ [c]) = 10 * int_of_digits Z + ((of_char c :: int) - 48)"
  by (simp add: int_of_digits_def)

lemma int_of_digits_bound:
  "list_all isDigit Z \<Longrightarrow> 0 \<le> int_of_digits Z \<and> int_of_digits Z < 10 ^ length Z"
proof (induction Z rule: rev_induct)
  case Nil
  show ?case by (simp add: int_of_digits_def)
next
  case (snoc c Z)
  then have ih: "0 \<le> int_of_digits Z" "int_of_digits Z < 10 ^ length Z" by simp_all
  from snoc.prems have "48 \<le> (of_char c :: int)" "(of_char c :: int) \<le> 57"
    by (simp_all add: isDigit_int)
  with ih show ?case by (simp add: int_of_digits_snoc)
qed

subsection \<open>The digits in the string of a Number\<close>

text \<open>The digits that \<open>shortest\<close> finds are at most 18, so the string of a positive Number
  is one of five forms, and it is an operand text unless it is in exponent notation.\<close>

lemma declen_bounds:
  "0 < x \<Longrightarrow> 1 \<le> declen x \<and> 10 ^ nat (declen x - 1) \<le> x \<and> x < 10 ^ nat (declen x)"
proof (induction x rule: declen.induct)
  case (1 x)
  have dl: "declen x = declen (x div 10) + 1" using 1(2) by (simp add: declen.simps [of x])
  show ?case
  proof (cases "0 < x div 10")
    case True
    define l where "l = declen (x div 10)"
    from 1(1) [OF 1(2) True] have ih: "1 \<le> l" "10 ^ nat (l - 1) \<le> x div 10" "x div 10 < 10 ^ nat l"
      by (simp_all add: l_def)
    have n1: "nat l = Suc (nat (l - 1))" using ih(1) by simp
    have n2: "nat (l + 1) = Suc (nat l)" using ih(1) by simp
    have "(10::int) ^ nat l = 10 * 10 ^ nat (l - 1)" by (simp add: n1)
    also have "\<dots> \<le> 10 * (x div 10)" using ih(2) by simp
    also have "\<dots> \<le> x" by simp
    finally have lo: "10 ^ nat l \<le> x" .
    have "x < 10 * (x div 10 + 1)" by simp
    also have "\<dots> \<le> 10 * 10 ^ nat l" using ih(3) by simp
    finally have hi: "x < 10 ^ nat (l + 1)" by (simp add: n2)
    from lo hi ih(1) show ?thesis by (simp add: dl l_def [symmetric])
  next
    case False
    from False 1(2) have x10: "x < 10" by simp
    with 1(2) have x0: "x div 10 = 0" by simp
    have d0: "declen 0 = 0" by (simp add: declen.simps [of 0])
    from x10 1(2) show ?thesis by (simp add: dl x0 d0)
  qed
qed

lemma flog10_upper: "0 < a \<Longrightarrow> a < pow10 (flog10 a + 1)"
proof -
  assume a: "0 < a"
  obtain p d where qd: "quotient_of a = (p, d)" by (cases "quotient_of a")
  from quotient_of_denom_pos [OF qd] have d: "0 < d" .
  from quotient_of_div [OF qd] have ad: "a = of_int p / of_int d" .
  with a d have p: "0 < p" by (simp add: zero_less_divide_iff)
  from declen_bounds [OF p] have bp: "1 \<le> declen p" "p < 10 ^ nat (declen p)" by simp_all
  from declen_bounds [OF d] have bd: "1 \<le> declen d" "10 ^ nat (declen d - 1) \<le> d" by simp_all
  define e0 where "e0 = declen p - declen d"
  show ?thesis
  proof (cases "pow10 e0 \<le> a")
    case True
    then have f: "flog10 a = e0" by (simp add: flog10_def qd e0_def Let_def)
    have "of_int p / of_int d < (of_int (10 ^ nat (declen p)) :: rat) / of_int (10 ^ nat (declen d - 1))"
      using bp bd d p by (intro frac_less) (simp_all del: of_int_power)
    also have "\<dots> = 10 powi (declen p) / 10 powi (declen d - 1)"
      using bp(1) bd(1) by (simp add: power_int_def)
    also have "\<dots> = 10 powi (e0 + 1)"
      by (simp add: e0_def power_int_diff [symmetric] algebra_simps)
    finally have "a < 10 powi (e0 + 1)" by (simp add: ad)
    then show ?thesis by (simp only: pow10_powi f)
  next
    case False
    then show ?thesis by (simp add: flog10_def qd e0_def Let_def)
  qed
qed

lemma lo_bound: "0 < x \<Longrightarrow> x < pow10 n0 \<Longrightarrow> \<lfloor>x / pow10 (n0 - int k)\<rfloor> < 10 ^ k"
proof -
  assume x: "0 < x" "x < pow10 n0"
  have "x / pow10 (n0 - int k) < pow10 n0 / pow10 (n0 - int k)"
    using x pow10_pos [of "n0 - int k"] by (simp add: divide_strict_right_mono)
  also have "\<dots> = 10 powi (int k)"
    by (simp add: pow10_powi power_int_diff [symmetric])
  finally have "x / pow10 (n0 - int k) < of_int (10 ^ k)" by simp
  then show ?thesis by (simp only: floor_less_iff)
qed

lemma candidates_bound:
  "0 < x \<Longrightarrow> x < pow10 n0 \<Longrightarrow> 1 \<le> k \<Longrightarrow> (s, n) \<in> set (candidates x n0 k) \<Longrightarrow> s < 10 ^ k"
proof -
  assume x: "0 < x" "x < pow10 n0" and k: "1 \<le> k" and m: "(s, n) \<in> set (candidates x n0 k)"
  define lo where "lo = \<lfloor>x / pow10 (n0 - int k)\<rfloor>"
  from lo_bound [OF x, of k] have lo: "lo < 10 ^ k" by (simp add: lo_def)
  have p: "(10::int) ^ (k - 1) < 10 ^ k" using k by (intro power_strict_increasing) simp_all
  from m have "s = lo \<or> (s = lo + 1 \<and> lo + 1 \<noteq> 10 ^ k) \<or> s = 10 ^ (k - 1)"
    by (auto simp: candidates_def Let_def lo_def [symmetric] split: if_splits)
  with lo p show ?thesis by auto
qed

lemma shortest_bound:
  "0 < x \<Longrightarrow> x < pow10 n0 \<Longrightarrow> 1 \<le> k \<Longrightarrow> shortest x n0 k fuel = (s, n, k') \<Longrightarrow>
   s < 10 ^ k' \<and> 1 \<le> k' \<and> k' \<le> k + fuel"
proof (induction fuel arbitrary: k)
  case 0
  from 0(4) have "s = \<lfloor>x / pow10 (n0 - int k)\<rfloor>" "k' = k" by auto
  with lo_bound [OF 0(1) 0(2), of k] 0(3) show ?case by simp
next
  case (Suc fuel)
  show ?case
  proof (cases "pick x k (candidates x n0 k)")
    case None
    with Suc.prems(4) have "shortest x n0 (Suc k) fuel = (s, n, k')" by simp
    from Suc.IH [OF Suc.prems(1) Suc.prems(2) _ this] show ?thesis by simp
  next
    case (Some c)
    obtain s1 n1 where c: "c = (s1, n1)" by (cases c)
    from pick_mem [OF Some] c have "(s1, n1) \<in> set (candidates x n0 k)" by simp
    from candidates_bound [OF Suc.prems(1) Suc.prems(2) Suc.prems(3) this] Some c Suc.prems(3,4)
    show ?thesis by simp
  qed
qed

lemma digits_of_length: "0 \<le> s \<Longrightarrow> s < 10 ^ k \<Longrightarrow> 1 \<le> k \<Longrightarrow> length (digits_of s) \<le> k"
proof (induction s arbitrary: k rule: digits_of.induct)
  case (1 n)
  show ?case
  proof (cases "n < 10")
    case True
    with 1(4) show ?thesis by (simp add: digits_of.simps [of n])
  next
    case False
    have k2: "2 \<le> k"
    proof (rule ccontr)
      assume "\<not> 2 \<le> k"
      with 1(4) have "k = 1" by simp
      with 1(3) False show False by simp
    qed
    then obtain j where j: "k = Suc j" "1 \<le> j" by (cases k) auto
    from 1(3) j have "n div 10 < 10 ^ j" by simp
    from 1(1) [OF False _ this j(2)] 1(2) have "length (digits_of (n div 10)) \<le> j" by simp
    with False j show ?thesis by (simp add: digits_of.simps [of n])
  qed
qed

lemma format_pos_form:
  "0 < x \<Longrightarrow>
   \<exists>ds. ds \<noteq> [] \<and> list_all isDigit ds \<and> length ds \<le> 18 \<and>
     ((\<exists>z. z \<le> 21 \<and> format_pos x = ds @ replicate z (CHR ''0'')) \<or>
      (\<exists>n. 0 < n \<and> format_pos x = take n ds @ ''.'' @ drop n ds) \<or>
      (\<exists>z. z \<le> 5 \<and> format_pos x = ''0.'' @ replicate z (CHR ''0'') @ ds) \<or>
      (\<exists>es. format_pos x = ds @ ''e'' @ es) \<or>
      (\<exists>es. format_pos x = take 1 ds @ ''.'' @ drop 1 ds @ ''e'' @ es))"
proof -
  assume x: "0 < x"
  obtain s n k where sh: "shortest x (flog10 x + 1) 1 17 = (s, n, k)"
    by (cases "shortest x (flog10 x + 1) 1 17")
  from shortest_nonneg [OF x sh] have s0: "0 \<le> s" .
  from shortest_bound [OF x flog10_upper [OF x] _ sh] have sb: "s < 10 ^ k" "1 \<le> k" "k \<le> 18"
    by simp_all
  define ds where "ds = digits_of s"
  from digits_of_digits [OF s0] have d: "ds \<noteq> []" "list_all isDigit ds"
    by (simp_all add: ds_def)
  from digits_of_length [OF s0 sb(1) sb(2)] sb(3) have len: "length ds \<le> 18" by (simp add: ds_def)
  define es where "es = (if n - 1 < 0 then ''-'' else ''+'') @ digits_of \<bar>n - 1\<bar>"
  have f: "format_pos x =
     (if int k \<le> n \<and> n \<le> 21 then ds @ replicate (nat (n - int k)) (CHR ''0'')
      else if 0 < n \<and> n \<le> 21 then take (nat n) ds @ ''.'' @ drop (nat n) ds
      else if - 6 < n \<and> n \<le> 0 then ''0.'' @ replicate (nat (- n)) (CHR ''0'') @ ds
      else if k = 1 then ds @ ''e'' @ es
      else take 1 ds @ ''.'' @ drop 1 ds @ ''e'' @ es)"
    unfolding format_pos_def sh by (simp add: Let_def ds_def es_def)
  consider (a) "int k \<le> n \<and> n \<le> 21"
    | (b) "\<not> (int k \<le> n \<and> n \<le> 21)" "0 < n \<and> n \<le> 21"
    | (c) "\<not> (int k \<le> n \<and> n \<le> 21)" "\<not> (0 < n \<and> n \<le> 21)" "- 6 < n \<and> n \<le> 0"
    | (d) "\<not> (int k \<le> n \<and> n \<le> 21)" "\<not> (0 < n \<and> n \<le> 21)" "\<not> (- 6 < n \<and> n \<le> 0)" "k = 1"
    | (e) "\<not> (int k \<le> n \<and> n \<le> 21)" "\<not> (0 < n \<and> n \<le> 21)" "\<not> (- 6 < n \<and> n \<le> 0)" "k \<noteq> 1"
    by blast
  then have "(\<exists>z. z \<le> 21 \<and> format_pos x = ds @ replicate z (CHR ''0'')) \<or>
      (\<exists>n. 0 < n \<and> format_pos x = take n ds @ ''.'' @ drop n ds) \<or>
      (\<exists>z. z \<le> 5 \<and> format_pos x = ''0.'' @ replicate z (CHR ''0'') @ ds) \<or>
      (\<exists>es. format_pos x = ds @ ''e'' @ es) \<or>
      (\<exists>es. format_pos x = take 1 ds @ ''.'' @ drop 1 ds @ ''e'' @ es)"
  proof cases
    case a
    have fx: "format_pos x = ds @ replicate (nat (n - int k)) (CHR ''0'')"
      using a by (simp only: f if_P if_not_P if_True if_False simp_thms)
    from a have "nat (n - int k) \<le> 21" by arith
    with fx show ?thesis by blast
  next
    case b
    have fx: "format_pos x = take (nat n) ds @ ''.'' @ drop (nat n) ds"
      using b by (simp only: f if_P if_not_P if_True if_False simp_thms)
    from b have "0 < nat n" by arith
    with fx show ?thesis by blast
  next
    case c
    have fx: "format_pos x = ''0.'' @ replicate (nat (- n)) (CHR ''0'') @ ds"
      using c by (simp only: f if_P if_not_P if_True if_False simp_thms)
    from c have "nat (- n) \<le> 5" by arith
    with fx show ?thesis by blast
  next
    case d1: d
    have fx: "format_pos x = ds @ ''e'' @ es"
      using d1 by (simp only: f if_P if_not_P if_True if_False simp_thms)
    then show ?thesis by blast
  next
    case e
    have fx: "format_pos x = take 1 ds @ ''.'' @ drop 1 ds @ ''e'' @ es"
      using e by (simp only: f if_P if_not_P if_True if_False simp_thms)
    then show ?thesis by blast
  qed
  with d len show ?thesis by blast
qed

lemma zeros_digits: "list_all isDigit (replicate m (CHR ''0''))"
  by (induction m) (simp_all add: digit_zero)

lemma take_digits: "list_all isDigit ds \<Longrightarrow> list_all isDigit (take m ds)"
  by (auto simp: list_all_iff dest: in_set_takeD)

lemma drop_digits: "list_all isDigit ds \<Longrightarrow> list_all isDigit (drop m ds)"
  by (auto simp: list_all_iff dest: in_set_dropD)

lemma filter_digits: "list_all isDigit ds \<Longrightarrow> filter isDigit ds = ds"
  by (induction ds) auto

lemma digits_decimal: "ds \<noteq> [] \<Longrightarrow> list_all isDigit ds \<Longrightarrow> decimal_numeral ds"
  by (cases ds) (auto simp: decimal_numeral_def fraction_tail_digits)

lemma decimal_numeral_append_digits:
  "decimal_numeral d \<Longrightarrow> list_all isDigit v \<Longrightarrow> decimal_numeral (d @ v)"
proof (induction v arbitrary: d)
  case Nil
  then show ?case by simp
next
  case (Cons c v)
  from Cons.prems have "decimal_numeral (d @ [c])" by (simp add: decimal_numeral_snoc_digit)
  from Cons.IH [OF this] Cons.prems(2) show ?case by simp
qed

lemma digits_no_dot: "list_all isDigit ds \<Longrightarrow> CHR ''.'' \<notin> set ds"
  using not_digit_chars(1) by (auto simp: list_all_iff)

lemma decimal_fraction:
  "ip \<noteq> [] \<Longrightarrow> list_all isDigit ip \<Longrightarrow> list_all isDigit fp \<Longrightarrow> decimal_numeral (ip @ ''.'' @ fp)"
proof -
  assume d: "ip \<noteq> []" "list_all isDigit ip" "list_all isDigit fp"
  from digits_decimal [OF d(1,2)] digits_no_dot [OF d(2)] have "decimal_numeral (ip @ ''.'')"
    by (rule decimal_numeral_snoc_dot)
  from decimal_numeral_append_digits [OF this d(3)] show ?thesis by simp
qed

lemma format_pos_plain:
  "0 < x \<Longrightarrow> operand_text (format_pos x) \<or> CHR ''e'' \<in> set (format_pos x)"
proof -
  assume x: "0 < x"
  from format_pos_form [OF x] obtain ds where d: "ds \<noteq> []" "list_all isDigit ds" "length ds \<le> 18"
    and f: "(\<exists>z. z \<le> 21 \<and> format_pos x = ds @ replicate z (CHR ''0'')) \<or>
      (\<exists>n. 0 < n \<and> format_pos x = take n ds @ ''.'' @ drop n ds) \<or>
      (\<exists>z. z \<le> 5 \<and> format_pos x = ''0.'' @ replicate z (CHR ''0'') @ ds) \<or>
      (\<exists>es. format_pos x = ds @ ''e'' @ es) \<or>
      (\<exists>es. format_pos x = take 1 ds @ ''.'' @ drop 1 ds @ ''e'' @ es)"
    by blast
  from f consider (a) z where "z \<le> 21" "format_pos x = ds @ replicate z (CHR ''0'')"
    | (b) n where "0 < n" "format_pos x = take n ds @ ''.'' @ drop n ds"
    | (c) z where "z \<le> 5" "format_pos x = ''0.'' @ replicate z (CHR ''0'') @ ds"
    | (e) "CHR ''e'' \<in> set (format_pos x)"
    by auto
  then show ?thesis
  proof cases
    case a
    have all: "list_all isDigit (ds @ replicate z (CHR ''0''))" using d(2) zeros_digits by simp
    from d(1) have "ds @ replicate z (CHR ''0'') \<noteq> []" by simp
    from digits_decimal [OF this all] filter_digits [OF all] a d(3) show ?thesis
      by (simp add: operand_text_def)
  next
    case b
    from b(1) d(1) have t: "take n ds \<noteq> []" by simp
    have fl: "length (filter isDigit (take n ds @ ''.'' @ drop n ds)) = length ds"
      using filter_digits [OF take_digits [OF d(2), of n]] filter_digits [OF drop_digits [OF d(2), of n]]
        not_digit_chars(1) by simp
    from decimal_fraction [OF t take_digits [OF d(2)] drop_digits [OF d(2)]] fl b(2) d(3)
    show ?thesis by (simp add: operand_text_def)
  next
    case c
    have all: "list_all isDigit (replicate z (CHR ''0'') @ ds)" using d(2) zeros_digits by simp
    have z: "''0'' \<noteq> []" "list_all isDigit ''0''" by (simp_all add: digit_zero)
    have fl: "length (filter isDigit (''0'' @ ''.'' @ replicate z (CHR ''0'') @ ds)) = 1 + (z + length ds)"
      using filter_digits [OF all] not_digit_chars(1) digit_zero by simp
    from decimal_fraction [OF z all] fl c d(3) show ?thesis
      by (simp add: operand_text_def)
  next
    case e
    then show ?thesis by simp
  qed
qed

lemma format_pos_leading:
  "0 < x \<Longrightarrow> format_pos x \<noteq> [] \<and> isDigit (hd (format_pos x)) \<and>
     length (takeWhile isDigit (format_pos x)) \<le> 39"
proof -
  assume x: "0 < x"
  from format_pos_form [OF x] obtain ds where d: "ds \<noteq> []" "list_all isDigit ds" "length ds \<le> 18"
    and f: "(\<exists>z. z \<le> 21 \<and> format_pos x = ds @ replicate z (CHR ''0'')) \<or>
      (\<exists>n. 0 < n \<and> format_pos x = take n ds @ ''.'' @ drop n ds) \<or>
      (\<exists>z. z \<le> 5 \<and> format_pos x = ''0.'' @ replicate z (CHR ''0'') @ ds) \<or>
      (\<exists>es. format_pos x = ds @ ''e'' @ es) \<or>
      (\<exists>es. format_pos x = take 1 ds @ ''.'' @ drop 1 ds @ ''e'' @ es)"
    by blast
  from d(1,2) have hd: "isDigit (hd ds)" by (cases ds) simp_all
  from f consider (a) z where "z \<le> 21" "format_pos x = ds @ replicate z (CHR ''0'')"
    | (b) n where "0 < n" "format_pos x = take n ds @ CHR ''.'' # drop n ds"
    | (c) z where "format_pos x = ''0'' @ CHR ''.'' # replicate z (CHR ''0'') @ ds"
    | (e) es where "format_pos x = ds @ CHR ''e'' # es"
    | (g) es where "format_pos x = take 1 ds @ CHR ''.'' # drop 1 ds @ ''e'' @ es"
    by auto
  then show ?thesis
  proof cases
    case a
    have all: "list_all isDigit (ds @ replicate z (CHR ''0''))" using d(2) zeros_digits by simp
    from takeWhile_all_digits [OF all] a d hd show ?thesis by simp
  next
    case b
    from b(1) d(1) have t: "take n ds \<noteq> []" by simp
    from b(1) d(1) have h: "hd (take n ds) = hd ds" by (cases ds; cases n) simp_all
    from takeWhile_digits_append [OF take_digits [OF d(2), of n] not_digit_chars(1)] b t h hd d(3)
    show ?thesis by simp
  next
    case c
    have z: "list_all isDigit ''0''" by (simp add: digit_zero)
    from takeWhile_digits_append [OF z not_digit_chars(1)] c digit_zero show ?thesis by simp
  next
    case e
    from takeWhile_digits_append [OF d(2) not_digit_chars(2)] e d hd show ?thesis by simp
  next
    case g
    from d(1) have t: "take 1 ds \<noteq> []" by simp
    from d(1) have h: "hd (take 1 ds) = hd ds" by (cases ds) simp_all
    from takeWhile_digits_append [OF take_digits [OF d(2), of 1] not_digit_chars(1)] g t h hd
    show ?thesis by simp
  qed
qed

lemma ten_39: "(10::rat) ^ 39 < pow2 1000"
  by (simp add: pow2_def)

lemma parseInt_digits:
  "list_all isDigit Z \<Longrightarrow> length Z \<le> 39 \<Longrightarrow>
   Number_isFinite (if int_of_digits Z = 0 then signed_zero neg
      else rnd (if neg then - of_int (int_of_digits Z) else of_int (int_of_digits Z)))"
proof -
  assume z: "list_all isDigit Z" "length Z \<le> 39"
  define m where "m = int_of_digits Z"
  from int_of_digits_bound [OF z(1)] have m: "0 \<le> m" "m < 10 ^ length Z" by (simp_all add: m_def)
  have "(10::int) ^ length Z \<le> 10 ^ 39" using z(2) by (intro power_increasing) simp_all
  with m(2) have "m < 10 ^ 39" by simp
  then have "(of_int m :: rat) < of_int (10 ^ 39)" by (simp only: of_int_less_iff)
  with ten_39 have "(of_int m :: rat) < pow2 1000" by simp
  with m(1) have "\<bar>of_int m :: rat\<bar> < pow2 1000" "\<bar>- of_int m :: rat\<bar> < pow2 1000" by simp_all
  from rnd_finite [OF this(1)] rnd_finite [OF this(2)] show ?thesis
    by (simp add: m_def [symmetric] signed_zero_def Number_isFinite_def)
qed

lemma parseInt_finite: "Number_isFinite y \<Longrightarrow> Number_isFinite (parseInt y)"
proof -
  assume f: "Number_isFinite y"
  have zero: "Number_isFinite (parseInt (Fin 0))" "Number_isFinite (parseInt NegZero)"
    by (simp_all add: parseInt_def Let_def isDigit_def int_of_digits_def signed_zero_def
        Number_isFinite_def)
  have pos: "Number_isFinite (parseInt (Fin q))" if q: "0 < q" for q
  proof -
    define F where "F = format_pos q"
    from format_pos_leading [OF q] have l: "F \<noteq> []" "isDigit (hd F)"
      "length (takeWhile isDigit F) \<le> 39" by (simp_all add: F_def)
    from l(1,2) not_digit_chars(3,4) have t: "take 1 F \<noteq> ''-''" "take 1 F \<noteq> ''+''"
      by (cases F; auto)+
    from l(1,2) have ne: "takeWhile isDigit F \<noteq> []" by (cases F) simp_all
    have all: "list_all isDigit (takeWhile isDigit F)"
      by (auto simp: list_all_iff dest: set_takeWhileD)
    from parseInt_digits [OF all l(3), of False] q t ne show ?thesis
      by (auto simp: parseInt_def Let_def F_def [symmetric] split: if_splits)
  qed
  have neg: "Number_isFinite (parseInt (Fin q))" if q: "q < 0" for q
  proof -
    define F where "F = format_pos (- q)"
    from q have "0 < - q" by simp
    from format_pos_leading [OF this] have l: "F \<noteq> []" "isDigit (hd F)"
      "length (takeWhile isDigit F) \<le> 39" by (simp_all add: F_def)
    from l(1,2) have ne: "takeWhile isDigit F \<noteq> []" by (cases F) simp_all
    have all: "list_all isDigit (takeWhile isDigit F)"
      by (auto simp: list_all_iff dest: set_takeWhileD)
    from parseInt_digits [OF all l(3), of True] q ne show ?thesis
      by (auto simp: parseInt_def Let_def F_def [symmetric] split: if_splits)
  qed
  from finite_cases [OF f] zero pos neg show ?thesis
    by (metis linorder_neqE_linordered_idom)
qed

lemma toString_shown: "Number_isFinite r \<Longrightarrow> shown (Number_toString r)"
proof -
  assume f: "Number_isFinite r"
  have zero: "operand_text ''0''"
    by (simp add: operand_text_def decimal_numeral_def digit_zero)
  have pos: "shown (Number_toString (Fin q))" if q: "0 < q" for q
    using format_pos_plain [OF q] format_pos_literal [OF q] q
    by (auto simp: shown_def exponent_text_def)
  have neg: "shown (Number_toString (Fin q))" if q: "q < 0" for q
  proof -
    from q have p: "0 < - q" by simp
    from format_pos_literal [OF p] literal_negative [of "format_pos (- q)"]
    have lit: "numeric_literal (''-'' @ format_pos (- q))" by simp
    from format_pos_plain [OF p] show ?thesis
    proof
      assume "operand_text (format_pos (- q))"
      with q show ?thesis by (simp add: shown_def negative_text_def)
    next
      assume "CHR ''e'' \<in> set (format_pos (- q))"
      with lit q show ?thesis by (simp add: shown_def exponent_text_def)
    qed
  qed
  from finite_cases [OF f] zero pos neg show ?thesis
    by (metis Number_toString.simps(2,5) linorder_neqE_linordered_idom shown_def)
qed

subsection \<open>Operands and results\<close>

text \<open>The result of an operation on two operands is finite and below \<open>2\<^bsup>801\<^esup>\<close>, and
  \<^verbatim>\<open>_roundResult\<close> of such a Number is finite. An operand text is a number token whose
  value is an operand.\<close>

lemma multiplier_bounds:
  "Number_isFinite (Math_pow10 MAX_DECIMAL_PLACES) \<and>
   \<bar>val (Math_pow10 MAX_DECIMAL_PLACES)\<bar> \<le> 2 * 10 ^ 10 \<and>
   10 ^ 10 \<le> 2 * \<bar>val (Math_pow10 MAX_DECIMAL_PLACES)\<bar>"
proof -
  have a: "\<bar>10 ^ 10 :: rat\<bar> < pow2 1000" by (simp add: pow2_def)
  have b: "pow2 (- 1000) \<le> \<bar>10 ^ 10 :: rat\<bar>" by (simp add: pow2_def)
  from rnd_finite [OF a] rnd_lower [OF b a] show ?thesis
    by (simp add: Math_pow10_def MAX_DECIMAL_PLACES_def)
qed

lemma roundResult_finite:
  "Number_isFinite x \<Longrightarrow> \<bar>val x\<bar> \<le> pow2 801 \<Longrightarrow> Number_isFinite (roundResult x)"
proof -
  assume f: "Number_isFinite x" and b: "\<bar>val x\<bar> \<le> pow2 801"
  define M where "M = Math_pow10 MAX_DECIMAL_PLACES"
  from multiplier_bounds have m: "Number_isFinite M" "\<bar>val M\<bar> \<le> 2 * 10 ^ 10"
    "10 ^ 10 \<le> 2 * \<bar>val M\<bar>" by (simp_all add: M_def)
  from m(1,3) have mz: "\<not> is_zero M" by (simp add: is_zero_val)
  define y1 where "y1 = js_mul x M"
  have "\<bar>val x\<bar> * \<bar>val M\<bar> \<le> pow2 801 * (2 * 10 ^ 10)"
    using b m(2) by (intro mult_mono) simp_all
  also have "\<dots> \<le> pow2 840" by (simp add: pow2_def)
  finally have p1: "\<bar>val x\<bar> * \<bar>val M\<bar> \<le> pow2 840" .
  have "pow2 840 < pow2 1000" by (simp add: pow2_def)
  with p1 have "\<bar>val x\<bar> * \<bar>val M\<bar> < pow2 1000" by simp
  from js_mul_finite [OF f m(1) this] p1 have y1: "Number_isFinite y1" "\<bar>val y1\<bar> \<le> 2 * pow2 840"
    by (simp_all add: y1_def)
  define y2 where "y2 = Math_round y1"
  have "2 * pow2 840 + 1 < pow2 1000" by (simp add: pow2_def)
  with y1(2) have "\<bar>val y1\<bar> + 1 < pow2 1000" by simp
  from Math_round_finite [OF y1(1) this] y1(2)
  have y2: "Number_isFinite y2" "\<bar>val y2\<bar> \<le> 2 * (2 * pow2 840 + 1)"
    by (simp_all add: y2_def)
  define rounded where "rounded = js_div y2 M"
  from m(3) have m1: "1 \<le> \<bar>val M\<bar>" by simp
  have "\<bar>val y2\<bar> / \<bar>val M\<bar> \<le> \<bar>val y2\<bar> / 1"
    using m1 by (intro divide_left_mono) simp_all
  with y2(2) have "\<bar>val y2\<bar> / \<bar>val M\<bar> \<le> 2 * (2 * pow2 840 + 1)" by simp
  moreover have "2 * (2 * pow2 840 + 1) < pow2 1000" by (simp add: pow2_def)
  ultimately have "\<bar>val y2\<bar> / \<bar>val M\<bar> < pow2 1000" by simp
  from js_div_finite [OF y2(1) m(1) mz this] have r: "Number_isFinite rounded"
    by (simp add: rounded_def)
  have "roundResult x = Fin 0 \<or> roundResult x = parseInt rounded \<or> roundResult x = rounded"
    unfolding roundResult_def Let_def M_def [symmetric] y1_def [symmetric] y2_def [symmetric]
      rounded_def [symmetric]
    by auto
  with r parseInt_finite [OF r] show ?thesis by (auto simp: Number_isFinite_def)
qed

lemma pow2_add: "pow2 a * pow2 b = pow2 (a + b)"
  by (simp add: pow2_powi power_int_add)

lemma execute_finite:
  "operand a \<Longrightarrow> operand b \<Longrightarrow> execute op a b = Inr x \<Longrightarrow>
   Number_isFinite x \<and> \<bar>val x\<bar> \<le> pow2 801"
proof -
  assume a: "operand a" and b: "operand b" and e: "execute op a b = Inr x"
  from a have fa: "Number_isFinite a" "\<bar>val a\<bar> \<le> pow2 400" by (simp_all add: operand_def)
  from b have fb: "Number_isFinite b" "\<bar>val b\<bar> \<le> pow2 400"
    "is_zero b \<or> pow2 (- 400) \<le> \<bar>val b\<bar>" by (simp_all add: operand_def)
  have s: "\<bar>val a\<bar> + \<bar>val b\<bar> \<le> pow2 401"
  proof -
    have "pow2 401 = 2 * pow2 400" by (simp add: pow2_add [of 1 400, symmetric] pow2_def)
    with fa(2) fb(2) show ?thesis by simp
  qed
  have lt: "pow2 401 < pow2 1000" "pow2 800 < pow2 1000" "2 * pow2 401 \<le> pow2 801"
    "2 * pow2 800 \<le> pow2 801" "2 * pow2 400 \<le> pow2 801" "pow2 400 < pow2 1000"
    by (simp_all add: pow2_def)
  have p: "\<bar>val a\<bar> * \<bar>val b\<bar> \<le> pow2 800"
  proof -
    have "\<bar>val a\<bar> * \<bar>val b\<bar> \<le> pow2 400 * pow2 400" using fa(2) fb(2) by (intro mult_mono) simp_all
    then show ?thesis by (simp add: pow2_add)
  qed
  show ?thesis
  proof (cases op)
    case AdditionOperation
    with e have x: "x = js_add a b" by simp
    from s lt(1) have "\<bar>val a\<bar> + \<bar>val b\<bar> < pow2 1000" by simp
    from js_add_finite [OF fa(1) fb(1) this] s lt(3) show ?thesis unfolding x by simp
  next
    case SubtractionOperation
    with e have x: "x = js_add a (js_neg b)" by (simp add: js_sub_def)
    from js_neg_finite [OF fb(1)] have n: "Number_isFinite (js_neg b)" "\<bar>val (js_neg b)\<bar> = \<bar>val b\<bar>"
      by simp_all
    from s lt(1) n(2) have "\<bar>val a\<bar> + \<bar>val (js_neg b)\<bar> < pow2 1000" by simp
    from js_add_finite [OF fa(1) n(1) this] s lt(3) n(2) show ?thesis unfolding x by simp
  next
    case MultiplicationOperation
    with e have x: "x = js_mul a b" by simp
    from p lt(2) have "\<bar>val a\<bar> * \<bar>val b\<bar> < pow2 1000" by simp
    from js_mul_finite [OF fa(1) fb(1) this] p lt(4) show ?thesis unfolding x by simp
  next
    case DivisionOperation
    with e have nz: "\<not> is_zero b" and x: "x = js_div a b"
      by (simp_all add: js_strict_eq_def split: if_splits; cases b; simp)+
    from nz fb(3) have lo: "pow2 (- 400) \<le> \<bar>val b\<bar>" by simp
    have "\<bar>val a\<bar> / \<bar>val b\<bar> \<le> pow2 400 / pow2 (- 400)"
      using fa(2) lo pow2_gt0 [of "- 400"] by (intro frac_le) simp_all
    also have "\<dots> = pow2 800" by (simp add: pow2_powi power_int_diff [symmetric])
    finally have q: "\<bar>val a\<bar> / \<bar>val b\<bar> \<le> pow2 800" .
    with lt(2) have "\<bar>val a\<bar> / \<bar>val b\<bar> < pow2 1000" by simp
    from js_div_finite [OF fa(1) fb(1) nz this] q lt(4) show ?thesis unfolding x by simp
  next
    case ModuloOperation
    with e have nz: "\<not> is_zero b" and x: "x = js_mod a b"
      by (simp_all add: js_strict_eq_def split: if_splits; cases b; simp)+
    from fa(2) lt(6) have "\<bar>val a\<bar> < pow2 1000" by simp
    from js_mod_finite [OF fa(1) fb(1) nz this] fa(2) lt(5) show ?thesis unfolding x by simp
  qed
qed

lemma decimal_numeral_cases:
  "decimal_numeral d \<Longrightarrow>
   \<exists>ip fp. ip \<noteq> [] \<and> list_all isDigit ip \<and> list_all isDigit fp \<and> (d = ip \<or> d = ip @ ''.'' @ fp)"
proof -
  assume dn: "decimal_numeral d"
  have tail: "fraction_tail cs \<Longrightarrow>
      list_all isDigit cs \<or> (\<exists>ip fp. cs = ip @ ''.'' @ fp \<and> list_all isDigit ip \<and> list_all isDigit fp)"
    for cs
  proof (induction cs)
    case Nil
    then show ?case by simp
  next
    case (Cons c cs)
    show ?case
    proof (cases "isDigit c")
      case True
      with Cons consider "list_all isDigit cs"
        | ip fp where "cs = ip @ ''.'' @ fp" "list_all isDigit ip" "list_all isDigit fp"
        by auto
      then show ?thesis
      proof cases
        case 1
        with True show ?thesis by simp
      next
        case 2
        with True have "c # cs = (c # ip) @ ''.'' @ fp \<and> list_all isDigit (c # ip) \<and> list_all isDigit fp"
          by simp
        then show ?thesis by blast
      qed
    next
      case False
      with Cons.prems have "c # cs = [] @ ''.'' @ cs \<and> list_all isDigit [] \<and> list_all isDigit cs"
        by simp
      then show ?thesis by blast
    qed
  qed
  from dn obtain c cs where d: "d = c # cs" "isDigit c" "fraction_tail cs"
    by (cases d) (auto simp: decimal_numeral_def)
  from tail [OF d(3)] consider "list_all isDigit cs"
    | ip fp where "cs = ip @ ''.'' @ fp" "list_all isDigit ip" "list_all isDigit fp"
    by auto
  then show ?thesis
  proof cases
    case 1
    with d have "d \<noteq> [] \<and> list_all isDigit d \<and> list_all isDigit [] \<and> d = d" by simp
    then show ?thesis by blast
  next
    case 2
    with d have "c # ip \<noteq> [] \<and> list_all isDigit (c # ip) \<and> list_all isDigit fp \<and>
       d = (c # ip) @ ''.'' @ fp" by simp
    then show ?thesis by blast
  qed
qed

lemma digit_not_space: "isDigit c \<Longrightarrow> \<not> is_space c"
  by (auto simp: isDigit_def is_space_def)

lemma dot_not_space: "\<not> is_space (CHR ''.'')"
  by (simp add: is_space_def)

lemma trim_id: "d \<noteq> [] \<Longrightarrow> \<not> is_space (hd d) \<Longrightarrow> \<not> is_space (last d) \<Longrightarrow> trim d = d"
proof -
  assume d: "d \<noteq> []" "\<not> is_space (hd d)" "\<not> is_space (last d)"
  from d(1,2) have a: "dropWhile is_space d = d" by (cases d) simp_all
  from d(1,3) have "dropWhile is_space (rev d) = rev d" by (cases "rev d") (simp_all add: last_rev hd_rev)
  with a show ?thesis by (simp add: trim_def)
qed

lemma ten_bounds:
  "(10::rat) ^ 39 < pow2 1000" "2 * (10::rat) ^ 39 \<le> pow2 400"
  "pow2 (- 1000) \<le> 1 / (10::rat) ^ 39" "2 * pow2 (- 400) \<le> 1 / (10::rat) ^ 39"
  by (simp_all add: pow2_def)

lemma decimal_value_operand:
  "0 \<le> N \<Longrightarrow> N < 10 ^ 39 \<Longrightarrow> k \<le> 39 \<Longrightarrow> operand (rnd (of_int N / 10 ^ k))"
proof (cases "N = 0")
  case True
  then show ?thesis by (simp add: rnd_def operand_def Number_isFinite_def pow2_gt0 less_imp_le)
next
  case False
  assume n: "0 \<le> N" "N < 10 ^ 39" and k: "k \<le> 39"
  define q :: rat where "q = of_int N / 10 ^ k"
  from False n(1) have n1: "1 \<le> N" by simp
  have q0: "0 \<le> q" using n(1) by (simp add: q_def)
  have "q \<le> of_int N / 1" unfolding q_def using n(1) by (intro divide_left_mono) simp_all
  also have "\<dots> < of_int (10 ^ 39)" using n(2) by (simp del: of_int_power of_int_numeral)
  finally have hi: "q < 10 ^ 39" by simp
  have "(10::rat) ^ k \<le> 10 ^ 39" using k by (intro power_increasing) simp_all
  then have "1 / (10::rat) ^ 39 \<le> 1 / 10 ^ k" by (intro divide_left_mono) simp_all
  also have "\<dots> \<le> q" unfolding q_def using n1 by (intro divide_right_mono) simp_all
  finally have lo: "1 / 10 ^ 39 \<le> q" .
  from hi ten_bounds(1) q0 have a: "\<bar>q\<bar> < pow2 1000" by simp
  from lo ten_bounds(3) q0 have b: "pow2 (- 1000) \<le> \<bar>q\<bar>" by simp
  from rnd_finite [OF a] have f: "Number_isFinite (rnd q)" "\<bar>val (rnd q)\<bar> \<le> 2 * \<bar>q\<bar>" by simp_all
  from f(2) hi q0 ten_bounds(2) have up: "\<bar>val (rnd q)\<bar> \<le> pow2 400" by simp
  from rnd_lower [OF b a] lo q0 ten_bounds(4) have "pow2 (- 400) \<le> \<bar>val (rnd q)\<bar>" by simp
  with f(1) up show ?thesis by (simp add: operand_def q_def)
qed

lemma token_value: "operand_text d \<Longrightarrow> isNumber d \<and> operand (parseFloat d)"
proof -
  assume o: "operand_text d"
  then have dn: "decimal_numeral d" and len: "length (filter isDigit d) \<le> 39"
    by (simp_all add: operand_text_def)
  from decimal_numeral_cases [OF dn] obtain ip fp where
    ip: "ip \<noteq> []" "list_all isDigit ip" and fp: "list_all isDigit fp"
    and d: "d = ip \<or> d = ip @ ''.'' @ fp" by blast
  from ip have hd: "isDigit (hd ip)" by (cases ip) simp_all
  from ip have lst: "isDigit (last ip)" by (induction ip) (auto split: if_splits)
  from d show ?thesis
  proof
    assume e: "d = ip"
    define N where "N = int_of_digits ip"
    from int_of_digits_bound [OF ip(2)] have n: "0 \<le> N" "N < 10 ^ length ip" by (simp_all add: N_def)
    from len e have l: "length ip \<le> 39" by (simp add: filter_digits [OF ip(2)])
    have "(10::int) ^ length ip \<le> 10 ^ 39" using l by (intro power_increasing) simp_all
    with n(2) have n39: "N < 10 ^ 39" by simp
    from decimal_value_operand [OF n(1) n39, of 0] have op: "operand (rnd (of_int N))" by simp
    from trim_id [OF ip(1) digit_not_space [OF hd] digit_not_space [OF lst]]
    have tn: "ToNumber d = rnd (of_int N)"
      using ip by (simp add: e ToNumber_def str_decimal_def Let_def takeWhile_all_digits
          dropWhile_all_digits N_def)
    have s: "dropWhile is_space ip = ip" using ip(1) digit_not_space [OF hd] by (cases ip) simp_all
    have pf: "parseFloat d = rnd (of_int N)"
      using ip by (simp add: e parseFloat_def Let_def s takeWhile_all_digits dropWhile_all_digits N_def)
    from op tn pf show ?thesis by (simp add: isNumber_def operand_def Number_isFinite_def)
  next
    assume e: "d = ip @ ''.'' @ fp"
    define N where "N = int_of_digits (ip @ fp)"
    from ip(2) fp have all: "list_all isDigit (ip @ fp)" by simp
    from int_of_digits_bound [OF all] have n: "0 \<le> N" "N < 10 ^ length (ip @ fp)"
      by (simp_all add: N_def)
    from len e have l: "length (ip @ fp) \<le> 39"
      using not_digit_chars(1) by (simp add: filter_digits [OF ip(2)] filter_digits [OF fp])
    have "(10::int) ^ length (ip @ fp) \<le> 10 ^ 39" using l by (intro power_increasing) simp_all
    with n(2) have n39: "N < 10 ^ 39" by simp
    from l have k: "length fp \<le> 39" by simp
    from decimal_value_operand [OF n(1) n39 k] have op: "operand (rnd (of_int N / 10 ^ length fp))" .
    have hd2: "hd (ip @ ''.'' @ fp) = hd ip" using ip(1) by simp
    have lst2: "\<not> is_space (last (ip @ ''.'' @ fp))"
    proof (cases "fp = []")
      case True
      then show ?thesis by (simp add: dot_not_space)
    next
      case False
      with fp have "isDigit (last fp)" by (induction fp) (auto split: if_splits)
      with False show ?thesis by (simp add: digit_not_space)
    qed
    have ne: "ip @ ''.'' @ fp \<noteq> []" by simp
    from trim_id [OF ne _ lst2] hd2 digit_not_space [OF hd]
    have tr: "trim (ip @ ''.'' @ fp) = ip @ ''.'' @ fp" by simp
    have tw: "takeWhile isDigit (ip @ CHR ''.'' # fp) = ip" "dropWhile isDigit (ip @ CHR ''.'' # fp) = CHR ''.'' # fp"
      using takeWhile_digits_append [OF ip(2) not_digit_chars(1)]
        dropWhile_digits_append [OF ip(2) not_digit_chars(1)] by simp_all
    have tn: "ToNumber d = rnd (of_int N / 10 ^ length fp)"
      unfolding e ToNumber_def Let_def tr
      using ip fp by (simp add: str_decimal_def Let_def tw N_def)
    have s: "dropWhile is_space (ip @ ''.'' @ fp) = ip @ ''.'' @ fp"
      using ip(1) digit_not_space [OF hd] by (cases ip) simp_all
    have pf: "parseFloat d = rnd (of_int N / 10 ^ length fp)"
      unfolding e parseFloat_def Let_def s
      using ip fp by (simp add: tw takeWhile_all_digits N_def)
    from op tn pf show ?thesis by (simp add: isNumber_def operand_def Number_isFinite_def)
  qed
qed

subsection \<open>The expressions that the state builds\<close>

text \<open>\<^verbatim>\<open>calculate()\<close> of the state gives the engine the stored operand, the operator and
  the input, concatenated. With two operand texts the tokens are the two numbers around
  the operator; a minus sign before either operand is one more operator token, for which
  the evaluation runs out of operands; the letters of an exponent or of the sentinel are
  refused by the validation. So a result, when there is one, is finite.\<close>

lemma tokenize_run:
  "digit_run d \<Longrightarrow> tokenize_loop (d @ rest) tokens cur = tokenize_loop rest tokens (cur @ d)"
  by (induction d arbitrary: cur) (auto simp: digit_run_def)

lemma decimal_digit_run: "decimal_numeral d \<Longrightarrow> digit_run d \<and> d \<noteq> []"
proof -
  assume "decimal_numeral d"
  from decimal_numeral_cases [OF this] obtain ip fp where
    "ip \<noteq> []" "list_all isDigit ip" "list_all isDigit fp" "d = ip \<or> d = ip @ ''.'' @ fp" by blast
  then show ?thesis by (auto simp: digit_run_def list_all_iff)
qed

lemma operator_cases:
  "isOperator op \<Longrightarrow> op = ''+'' \<or> op = ''-'' \<or> op = ''*'' \<or> op = ''/'' \<or> op = ''%''"
  by (simp add: isOperator_def)

lemma operator_char:
  "isOperator op \<Longrightarrow> \<exists>c. op = [c] \<and> \<not> isDigit c \<and> c \<noteq> CHR ''.'' \<and> c \<noteq> CHR '' ''"
proof -
  assume "isOperator op"
  from operator_cases [OF this] consider "op = ''+''" | "op = ''-''" | "op = ''*''" | "op = ''/''"
    | "op = ''%''" by blast
  then show ?thesis
  proof cases
    case 1
    then have "op = [CHR ''+''] \<and> \<not> isDigit (CHR ''+'') \<and> CHR ''+'' \<noteq> CHR ''.'' \<and> CHR ''+'' \<noteq> CHR '' ''"
      by (simp add: isDigit_def)
    then show ?thesis by blast
  next
    case 2
    then have "op = [CHR ''-''] \<and> \<not> isDigit (CHR ''-'') \<and> CHR ''-'' \<noteq> CHR ''.'' \<and> CHR ''-'' \<noteq> CHR '' ''"
      by (simp add: isDigit_def)
    then show ?thesis by blast
  next
    case 3
    then have "op = [CHR ''*''] \<and> \<not> isDigit (CHR ''*'') \<and> CHR ''*'' \<noteq> CHR ''.'' \<and> CHR ''*'' \<noteq> CHR '' ''"
      by (simp add: isDigit_def)
    then show ?thesis by blast
  next
    case 4
    then have "op = [CHR ''/''] \<and> \<not> isDigit (CHR ''/'') \<and> CHR ''/'' \<noteq> CHR ''.'' \<and> CHR ''/'' \<noteq> CHR '' ''"
      by (simp add: isDigit_def)
    then show ?thesis by blast
  next
    case 5
    then have "op = [CHR ''%''] \<and> \<not> isDigit (CHR ''%'') \<and> CHR ''%'' \<noteq> CHR ''.'' \<and> CHR ''%'' \<noteq> CHR '' ''"
      by (simp add: isDigit_def)
    then show ?thesis by blast
  qed
qed

lemma minus_char: "\<not> isDigit (CHR ''-'') \<and> CHR ''-'' \<noteq> CHR ''.'' \<and> CHR ''-'' \<noteq> CHR '' ''"
  by (simp add: isDigit_def)

lemma tokenize_symbol:
  "\<not> isDigit c \<Longrightarrow> c \<noteq> CHR ''.'' \<Longrightarrow> c \<noteq> CHR '' '' \<Longrightarrow>
   tokenize_loop (c # rest) tokens cur =
     tokenize_loop rest ((if cur \<noteq> [] then tokens @ [cur] else tokens) @ [[c]]) []"
  by (simp add: Let_def)

lemma tokens_plain:
  "decimal_numeral a \<Longrightarrow> decimal_numeral b \<Longrightarrow> isOperator op \<Longrightarrow>
   tokenizeExpression (a @ op @ b) = [a, op, b]"
proof -
  assume a: "decimal_numeral a" and b: "decimal_numeral b" and o: "isOperator op"
  from operator_char [OF o] obtain c where c: "op = [c]" "\<not> isDigit c" "c \<noteq> CHR ''.''" "c \<noteq> CHR '' ''"
    by blast
  from decimal_digit_run [OF a] decimal_digit_run [OF b]
  have r: "digit_run a" "a \<noteq> []" "digit_run b" "b \<noteq> []" by simp_all
  have "tokenize_loop (a @ c # b) [] [] = tokenize_loop (c # b) [] a"
    using tokenize_run [OF r(1), of "c # b" "[]" "[]"] by simp
  also have "\<dots> = tokenize_loop b [a, [c]] []"
    using r(2) by (simp add: tokenize_symbol [OF c(2,3,4)] del: tokenize_loop.simps)
  also have "\<dots> = [a, [c], b]"
    using r(4) tokenize_run [OF r(3), of "[]" "[a, [c]]" "[]"] by simp
  finally show ?thesis by (simp add: tokenizeExpression_def c(1))
qed

lemma tok_operand:
  "decimal_numeral a \<Longrightarrow> \<not> isDigit c \<Longrightarrow> c \<noteq> CHR ''.'' \<Longrightarrow> c \<noteq> CHR '' '' \<Longrightarrow>
   tokenize_loop (a @ c # rest) tokens [] = tokenize_loop rest (tokens @ [a, [c]]) []"
proof -
  assume a: "decimal_numeral a" and c: "\<not> isDigit c" "c \<noteq> CHR ''.''" "c \<noteq> CHR '' ''"
  from decimal_digit_run [OF a] have r: "digit_run a" "a \<noteq> []" by simp_all
  have "tokenize_loop (a @ c # rest) tokens [] = tokenize_loop (c # rest) tokens a"
    using tokenize_run [OF r(1), of "c # rest" tokens "[]"] by simp
  also have "\<dots> = tokenize_loop rest (tokens @ [a, [c]]) []"
    using r(2) by (simp add: tokenize_symbol [OF c] del: tokenize_loop.simps)
  finally show ?thesis .
qed

lemma tok_last: "decimal_numeral b \<Longrightarrow> tokenize_loop b tokens [] = tokens @ [b]"
proof -
  assume b: "decimal_numeral b"
  from decimal_digit_run [OF b] have r: "digit_run b" "b \<noteq> []" by simp_all
  from r(2) tokenize_run [OF r(1), of "[]" tokens "[]"] show ?thesis by simp
qed

lemma tok_minus: "tokenize_loop (CHR ''-'' # rest) tokens [] = tokenize_loop rest (tokens @ [''-'']) []"
  using tokenize_symbol [of "CHR ''-''" rest tokens "[]"] minus_char by simp

lemma not_number_symbols:
  "\<not> isNumber ''+''" "\<not> isNumber ''-''" "\<not> isNumber ''*''" "\<not> isNumber ''/''" "\<not> isNumber ''%''"
  by code_simp+

lemma calculate_tokens:
  "CalculationEngine_calculate (JSString e) = Inr r \<Longrightarrow>
   (case rpn_loop (tokenizeExpression e) [] [] of Inl err \<Rightarrow> Inl err | Inr rpn \<Rightarrow> evaluateRPN rpn) = Inr r"
  by (auto simp: CalculationEngine_calculate_def toReversePolishNotation_def split: sum.splits)

lemma plain_result:
  "isNumber a \<Longrightarrow> isNumber b \<Longrightarrow> isOperator op \<Longrightarrow>
   (case rpn_loop [a, op, b] [] [] of Inl err \<Rightarrow> Inl err | Inr rpn \<Rightarrow> evaluateRPN rpn) = Inr r \<Longrightarrow>
   \<exists>operation x. execute operation (parseFloat a) (parseFloat b) = Inr x \<and> r = roundResult x"
proof -
  assume n: "isNumber a" "isNumber b" and o: "isOperator op"
    and r: "(case rpn_loop [a, op, b] [] [] of Inl err \<Rightarrow> Inl err | Inr rpn \<Rightarrow> evaluateRPN rpn) = Inr r"
  from operator_cases [OF o] obtain operation where c: "createOperation op = Inr operation"
    by (auto simp: createOperation_def)
  from o not_number_symbols have nn: "\<not> isNumber op" by (auto dest!: operator_cases)
  from r n o nn c show ?thesis
    by (auto simp: evaluateRPN_def split: sum.splits if_splits list.splits)
qed

lemma signed_left:
  "isNumber a \<Longrightarrow> isNumber b \<Longrightarrow> isOperator op \<Longrightarrow>
   (case rpn_loop [''-'', a, op, b] [] [] of Inl err \<Rightarrow> Inl err | Inr rpn \<Rightarrow> evaluateRPN rpn) \<noteq> Inr r"
proof -
  assume n: "isNumber a" "isNumber b" and o: "isOperator op"
  from operator_cases [OF o] show ?thesis
    using n not_number_symbols
    by (elim disjE)
      (auto simp: isOperator_def createOperation_def evaluateRPN_def
        split: sum.splits if_splits list.splits)
qed

lemma signed_right:
  "isNumber a \<Longrightarrow> isNumber b \<Longrightarrow> isOperator op \<Longrightarrow>
   (case rpn_loop [a, op, ''-'', b] [] [] of Inl err \<Rightarrow> Inl err | Inr rpn \<Rightarrow> evaluateRPN rpn) \<noteq> Inr r"
proof -
  assume n: "isNumber a" "isNumber b" and o: "isOperator op"
  from operator_cases [OF o] show ?thesis
    using n not_number_symbols
    by (elim disjE)
      (auto simp: isOperator_def createOperation_def evaluateRPN_def
        split: sum.splits if_splits list.splits)
qed

lemma signed_both:
  "isNumber a \<Longrightarrow> isNumber b \<Longrightarrow> isOperator op \<Longrightarrow>
   (case rpn_loop [''-'', a, op, ''-'', b] [] [] of Inl err \<Rightarrow> Inl err | Inr rpn \<Rightarrow> evaluateRPN rpn) \<noteq> Inr r"
proof -
  assume n: "isNumber a" "isNumber b" and o: "isOperator op"
  from operator_cases [OF o] show ?thesis
    using n not_number_symbols
    by (elim disjE)
      (auto simp: isOperator_def createOperation_def evaluateRPN_def
        split: sum.splits if_splits list.splits)
qed

lemma invalid_char_error:
  "c \<in> set e \<Longrightarrow> \<not> validChar c \<Longrightarrow> CalculationEngine_calculate (JSString e) \<noteq> Inr r"
  by (auto simp: CalculationEngine_calculate_def validateExpression_def validChars_def list_all_iff
      split: sum.splits)

lemma invalid_letters: "\<not> validChar (CHR ''e'')" "\<not> validChar (CHR ''E'')"
  by (simp_all add: validChar_def isDigit_def is_space_def)

lemma operands_finite:
  "operand_text a \<Longrightarrow> operand_text b \<Longrightarrow> isOperator op \<Longrightarrow>
   CalculationEngine_calculate (JSString (a @ op @ b)) = Inr r \<Longrightarrow> Number_isFinite r"
proof -
  assume a: "operand_text a" and b: "operand_text b" and o: "isOperator op"
    and r: "CalculationEngine_calculate (JSString (a @ op @ b)) = Inr r"
  from a b have d: "decimal_numeral a" "decimal_numeral b" by (simp_all add: operand_text_def)
  from token_value [OF a] token_value [OF b]
  have v: "isNumber a" "operand (parseFloat a)" "isNumber b" "operand (parseFloat b)" by simp_all
  from calculate_tokens [OF r] tokens_plain [OF d o]
  have "(case rpn_loop [a, op, b] [] [] of Inl err \<Rightarrow> Inl err | Inr rpn \<Rightarrow> evaluateRPN rpn) = Inr r"
    by simp
  from plain_result [OF v(1) v(3) o this] obtain operation x where
    x: "execute operation (parseFloat a) (parseFloat b) = Inr x" "r = roundResult x" by blast
  from execute_finite [OF v(2) v(4) x(1)] roundResult_finite show ?thesis by (simp add: x(2))
qed

lemma negative_left_error:
  "negative_text a \<Longrightarrow> operand_text b \<Longrightarrow> isOperator op \<Longrightarrow>
   CalculationEngine_calculate (JSString (a @ op @ b)) \<noteq> Inr r"
proof
  assume a: "negative_text a" and b: "operand_text b" and o: "isOperator op"
    and r: "CalculationEngine_calculate (JSString (a @ op @ b)) = Inr r"
  from a obtain u where u: "a = CHR ''-'' # u" "operand_text u"
    by (cases a) (auto simp: negative_text_def)
  from u(2) b have d: "decimal_numeral u" "decimal_numeral b" by (simp_all add: operand_text_def)
  from operator_char [OF o] obtain c where c: "op = [c]" "\<not> isDigit c" "c \<noteq> CHR ''.''" "c \<noteq> CHR '' ''"
    by blast
  have "tokenizeExpression (a @ op @ b) = [''-'', u, op, b]"
    by (simp add: tokenizeExpression_def u(1) c(1) tok_minus tok_operand [OF d(1) c(2,3,4)]
        tok_last [OF d(2)] del: tokenize_loop.simps)
  with calculate_tokens [OF r]
  have "(case rpn_loop [''-'', u, op, b] [] [] of Inl err \<Rightarrow> Inl err | Inr rpn \<Rightarrow> evaluateRPN rpn) = Inr r"
    by simp
  with signed_left [of u b op r] token_value [OF u(2)] token_value [OF b] o show False by simp
qed

lemma negative_right_error:
  "operand_text a \<Longrightarrow> negative_text b \<Longrightarrow> isOperator op \<Longrightarrow>
   CalculationEngine_calculate (JSString (a @ op @ b)) \<noteq> Inr r"
proof
  assume a: "operand_text a" and b: "negative_text b" and o: "isOperator op"
    and r: "CalculationEngine_calculate (JSString (a @ op @ b)) = Inr r"
  from b obtain u where u: "b = CHR ''-'' # u" "operand_text u"
    by (cases b) (auto simp: negative_text_def)
  from u(2) a have d: "decimal_numeral a" "decimal_numeral u" by (simp_all add: operand_text_def)
  from operator_char [OF o] obtain c where c: "op = [c]" "\<not> isDigit c" "c \<noteq> CHR ''.''" "c \<noteq> CHR '' ''"
    by blast
  have "tokenizeExpression (a @ op @ b) = [a, op, ''-'', u]"
    by (simp add: tokenizeExpression_def u(1) c(1) tok_minus tok_operand [OF d(1) c(2,3,4)]
        tok_last [OF d(2)] del: tokenize_loop.simps)
  with calculate_tokens [OF r]
  have "(case rpn_loop [a, op, ''-'', u] [] [] of Inl err \<Rightarrow> Inl err | Inr rpn \<Rightarrow> evaluateRPN rpn) = Inr r"
    by simp
  with signed_right [of a u op r] token_value [OF u(2)] token_value [OF a] o show False by simp
qed

lemma negative_both_error:
  "negative_text a \<Longrightarrow> negative_text b \<Longrightarrow> isOperator op \<Longrightarrow>
   CalculationEngine_calculate (JSString (a @ op @ b)) \<noteq> Inr r"
proof
  assume a: "negative_text a" and b: "negative_text b" and o: "isOperator op"
    and r: "CalculationEngine_calculate (JSString (a @ op @ b)) = Inr r"
  from a obtain u where u: "a = CHR ''-'' # u" "operand_text u"
    by (cases a) (auto simp: negative_text_def)
  from b obtain w where w: "b = CHR ''-'' # w" "operand_text w"
    by (cases b) (auto simp: negative_text_def)
  from u(2) w(2) have d: "decimal_numeral u" "decimal_numeral w" by (simp_all add: operand_text_def)
  from operator_char [OF o] obtain c where c: "op = [c]" "\<not> isDigit c" "c \<noteq> CHR ''.''" "c \<noteq> CHR '' ''"
    by blast
  have "tokenizeExpression (a @ op @ b) = [''-'', u, op, ''-'', w]"
    by (simp add: tokenizeExpression_def u(1) w(1) c(1) tok_minus tok_operand [OF d(1) c(2,3,4)]
        tok_last [OF d(2)] del: tokenize_loop.simps)
  with calculate_tokens [OF r]
  have "(case rpn_loop [''-'', u, op, ''-'', w] [] [] of Inl err \<Rightarrow> Inl err | Inr rpn \<Rightarrow> evaluateRPN rpn) = Inr r"
    by simp
  with signed_both [of u w op r] token_value [OF u(2)] token_value [OF w(2)] o show False by simp
qed

lemma shown_cases:
  "shown d \<Longrightarrow> operand_text d \<or> negative_text d \<or> (\<exists>c\<in>set d. \<not> validChar c)"
  using invalid_letters by (auto simp: shown_def exponent_text_def ERROR_MESSAGE_def)

lemma calculate_shown_finite:
  "shown p \<Longrightarrow> shown c \<Longrightarrow> isOperator op \<Longrightarrow>
   CalculationEngine_calculate (JSString (p @ op @ c)) = Inr r \<Longrightarrow> Number_isFinite r"
proof -
  assume p: "shown p" and c: "shown c" and o: "isOperator op"
    and r: "CalculationEngine_calculate (JSString (p @ op @ c)) = Inr r"
  have inv: "\<not> (\<exists>x\<in>set p \<union> set c. \<not> validChar x)"
  proof
    assume "\<exists>x\<in>set p \<union> set c. \<not> validChar x"
    then obtain x where "x \<in> set (p @ op @ c)" "\<not> validChar x" by auto
    from invalid_char_error [OF this, of r] r show False by simp
  qed
  with shown_cases [OF p] shown_cases [OF c]
  have k: "operand_text p \<or> negative_text p" "operand_text c \<or> negative_text c" by auto
  from k r o operands_finite [of p c op r] negative_left_error [of p c op r]
    negative_right_error [of p c op r] negative_both_error [of p c op r]
  show ?thesis by blast
qed

section \<open>Properties of the calculator state\<close>

text \<open>
  Claim C10. \<^verbatim>\<open>calculate()\<close> with no pending operator (\<^verbatim>\<open>operator\<close> is \<^verbatim>\<open>null\<close> or the
  empty string) or with an empty \<^verbatim>\<open>previousInput\<close> throws nothing and returns the state
  it was called in, every field unchanged.
\<close>

theorem calculate_without_pending_is_noop:
  "operator s = None \<or> operator s = Some [] \<or> previousInput s = [] \<Longrightarrow>
   CalculatorState_calculate now s = (None, s)"
  by (auto simp: CalculatorState_calculate_def split: option.splits)

theorem calculate_without_pending_is_noop_witness:
  "operator reset = None \<and>
   CalculatorState_calculate ''2026-01-01T00:00:00.000Z'' reset = (None, reset)"
  using calculate_without_pending_is_noop [of reset "''2026-01-01T00:00:00.000Z''"]
  by (simp add: reset_def)

subsection \<open>A chained calculation\<close>

text \<open>
  Claim C5. From a fresh state, \<^verbatim>\<open>updateInput("7")\<close>, \<^verbatim>\<open>applyOperator("+")\<close>,
  \<^verbatim>\<open>updateInput("3")\<close>, \<^verbatim>\<open>calculate()\<close> leave the display at \<^verbatim>\<open>"10"\<close>, and going on with
  \<^verbatim>\<open>applyOperator("-")\<close>, \<^verbatim>\<open>updateInput("4")\<close>, \<^verbatim>\<open>calculate()\<close> leaves it at \<^verbatim>\<open>"6"\<close>,
  whatever the clock readings are.
\<close>

theorem chained_calculation:
  "getDisplayValue (run [UpdateInput ''7'', ApplyOperator ''+'' t1, UpdateInput ''3'',
      Calculate t2]) = ''10'' \<and>
   getDisplayValue (run [UpdateInput ''7'', ApplyOperator ''+'' t1, UpdateInput ''3'',
      Calculate t2, ApplyOperator ''-'' t3, UpdateInput ''4'', Calculate t4]) = ''6''"
  by code_simp

subsection \<open>The display\<close>

text \<open>
  Claim C2 does not hold as stated. \<^verbatim>\<open>backspace()\<close> removes the last character of
  whatever is displayed and \<^verbatim>\<open>updateInput(".")\<close> appends a point to it: after 5 / 0 =
  the display is \<^verbatim>\<open>"Error"\<close>, one \<^verbatim>\<open>backspace()\<close> later it is \<^verbatim>\<open>"Erro"\<close>, and after
  \<^verbatim>\<open>updateInput(".")\<close> instead it is \<^verbatim>\<open>"Error."\<close>; after 3 - 8 = the display is \<^verbatim>\<open>"-5"\<close>
  and one \<^verbatim>\<open>backspace()\<close> later it is \<^verbatim>\<open>"-"\<close>. The arguments are not checked either:
  \<^verbatim>\<open>updateInput("x")\<close> displays \<^verbatim>\<open>"x"\<close>, and with the two points, a tab and two points as
  operator between 5 and 5 the only number token of the expression is the tab, whose
  value is \<open>NaN\<close>, and the display is \<^verbatim>\<open>"NaN"\<close>. None of these strings is a numeric
  literal, \<^verbatim>\<open>"0"\<close> or \<^verbatim>\<open>"Error"\<close>.
\<close>

theorem display_outside_contract:
  "\<not> display_contract (getDisplayValue (run
      [UpdateInput ''5'', ApplyOperator ''/'' ''2026-01-01T00:00:00.000Z'', UpdateInput ''0'',
       Calculate ''2026-01-01T00:00:01.000Z'', Backspace])) \<and>
   \<not> display_contract (getDisplayValue (run
      [UpdateInput ''5'', ApplyOperator ''/'' ''2026-01-01T00:00:00.000Z'', UpdateInput ''0'',
       Calculate ''2026-01-01T00:00:01.000Z'', UpdateInput ''.''])) \<and>
   \<not> display_contract (getDisplayValue (run
      [UpdateInput ''3'', ApplyOperator ''-'' ''2026-01-01T00:00:00.000Z'', UpdateInput ''8'',
       Calculate ''2026-01-01T00:00:01.000Z'', Backspace])) \<and>
   \<not> display_contract (getDisplayValue (run [UpdateInput ''x''])) \<and>
   \<not> display_contract (getDisplayValue (run
      [UpdateInput ''5'', ApplyOperator (''..'' @ [CHR 0x09] @ ''..'') ''2026-01-01T00:00:00.000Z'',
       UpdateInput ''5'', Calculate ''2026-01-01T00:00:01.000Z'']))"
  by code_simp

text \<open>The strings shown are closed under the admitted calls of \<^verbatim>\<open>updateInput(".")\<close> and
  \<^verbatim>\<open>backspace()\<close>, and each of them is inside the contract.\<close>

lemma operand_text_digit: "length v = 1 \<Longrightarrow> list_all isDigit v \<Longrightarrow> operand_text v"
  by (cases v) (auto simp: operand_text_def decimal_numeral_def)

lemma operand_text_default: "operand_text DEFAULT_DISPLAY_VALUE"
  using decimal_numeral_default by (simp add: operand_text_def DEFAULT_DISPLAY_VALUE_def digit_zero)

lemma filter_length_le: "length (filter P d) \<le> length d"
  by simp

lemma operand_text_append:
  "operand_text d \<Longrightarrow> length d < MAX_DISPLAY_LENGTH \<Longrightarrow> length v = 1 \<Longrightarrow> list_all isDigit v \<Longrightarrow>
   operand_text (d @ v)"
proof -
  assume d: "operand_text d" "length d < MAX_DISPLAY_LENGTH" and v: "length v = 1" "list_all isDigit v"
  from d(1) have "decimal_numeral d" by (simp add: operand_text_def)
  from decimal_numeral_append_digit [OF this v] have dn: "decimal_numeral (d @ v)" .
  have "length (filter isDigit (d @ v)) \<le> length (d @ v)" by (rule filter_length_le)
  with d(2) v(1) have "length (filter isDigit (d @ v)) \<le> 39" by (simp add: MAX_DISPLAY_LENGTH_def)
  with dn show ?thesis by (simp add: operand_text_def)
qed

lemma operand_text_dot: "operand_text d \<Longrightarrow> CHR ''.'' \<notin> set d \<Longrightarrow> operand_text (d @ ''.'')"
  using not_digit_chars(1) by (simp add: operand_text_def decimal_numeral_snoc_dot)

lemma filter_butlast_le: "length (filter P (butlast d)) \<le> length (filter P d)"
  by (induction d) auto

lemma operand_text_butlast: "operand_text d \<Longrightarrow> length d > 1 \<Longrightarrow> operand_text (butlast d)"
proof -
  assume d: "operand_text d" "length d > 1"
  from d have "decimal_numeral (butlast d)" by (simp add: operand_text_def decimal_numeral_butlast)
  moreover from d(1) filter_butlast_le [of isDigit d] have "length (filter isDigit (butlast d)) \<le> 39"
    by (simp add: operand_text_def)
  ultimately show ?thesis by (simp add: operand_text_def)
qed

lemma exponent_last: "exponent_part r \<Longrightarrow> r \<noteq> [] \<and> isDigit (last r)"
proof -
  assume e: "exponent_part r"
  then obtain c r1 where r: "r = c # r1" by (cases r) (auto simp: exponent_part_def)
  define r2 where "r2 = (case r1 of [] \<Rightarrow> [] | sg # r3 \<Rightarrow> (if sg = CHR ''+'' \<or> sg = CHR ''-'' then r3 else r1))"
  from e r have r2: "r2 \<noteq> []" "list_all isDigit r2"
    by (simp_all add: exponent_part_def Let_def r2_def)
  then have d: "isDigit (last r2)" by (induction r2) (auto split: if_splits)
  from r2(1) have "r1 \<noteq> [] \<and> last r1 = last r2"
    by (cases r1) (auto simp: r2_def split: if_splits)
  with d r show ?thesis by simp
qed

lemma digits_last: "ds \<noteq> [] \<Longrightarrow> list_all isDigit ds \<Longrightarrow> isDigit (last ds)"
  by (induction ds) (auto split: if_splits)

lemma literal_last: "numeric_literal d \<Longrightarrow> d \<noteq> [] \<and> last d \<noteq> CHR ''e''"
proof -
  assume l: "numeric_literal d"
  define u where "u = (case d of [] \<Rightarrow> [] | c # r \<Rightarrow> (if c = CHR ''-'' then r else d))"
  define ip where "ip = takeWhile isDigit u"
  define r1 where "r1 = dropWhile isDigit u"
  define fp where "fp = (case r1 of [] \<Rightarrow> [] | c # r \<Rightarrow> (if c = CHR ''.'' then takeWhile isDigit r else []))"
  define r2 where "r2 = (case r1 of [] \<Rightarrow> [] | c # r \<Rightarrow> (if c = CHR ''.'' then dropWhile isDigit r else r1))"
  from l have p: "ip \<noteq> [] \<or> fp \<noteq> []" "r2 = [] \<or> exponent_part r2"
    unfolding numeric_literal_def Let_def u_def [symmetric] ip_def [symmetric] r1_def [symmetric]
      fp_def [symmetric] r2_def [symmetric] by simp_all
  have u: "u = ip @ r1" by (simp add: ip_def r1_def)
  have ipd: "list_all isDigit ip" by (auto simp: ip_def list_all_iff dest: set_takeWhileD)
  have nd: "\<not> isDigit (CHR ''e'')" by (rule not_digit_chars(2))
  have lu: "u \<noteq> [] \<and> last u \<noteq> CHR ''e''"
  proof (cases r1)
    case Nil
    with p(1) have "ip \<noteq> []" by (simp add: fp_def)
    from digits_last [OF this ipd] this Nil u nd show ?thesis by auto
  next
    case (Cons c r)
    show ?thesis
    proof (cases "c = CHR ''.''")
      case True
      have r: "r = fp @ r2" using Cons True by (simp add: fp_def r2_def)
      have fpd: "list_all isDigit fp"
        using Cons True by (auto simp: fp_def list_all_iff dest: set_takeWhileD)
      from p(2) show ?thesis
      proof
        assume e: "r2 = []"
        show ?thesis
        proof (cases "fp = []")
          case True
          with e r Cons u \<open>c = CHR ''.''\<close> show ?thesis by simp
        next
          case False
          from digits_last [OF False fpd] False e r Cons u nd show ?thesis by auto
        qed
      next
        assume "exponent_part r2"
        from exponent_last [OF this] r Cons u nd show ?thesis by auto
      qed
    next
      case False
      with Cons have "r2 = r1" by (simp add: r2_def)
      with p(2) Cons have "exponent_part r1" by auto
      from exponent_last [OF this] Cons u nd show ?thesis by auto
    qed
  qed
  have "d \<noteq> [] \<and> last d = last u"
    using lu by (cases d) (auto simp: u_def split: if_splits)
  with lu show ?thesis by simp
qed

lemma not_literals:
  "\<not> numeric_literal ''-''" "\<not> numeric_literal ''Erro''" "\<not> numeric_literal ''Error.''"
  by code_simp+

lemma shown_dot:
  "shown d \<Longrightarrow> CHR ''.'' \<notin> set d \<Longrightarrow> numeric_literal (d @ ''.'') \<Longrightarrow> shown (d @ ''.'')"
proof -
  assume s: "shown d" and n: "CHR ''.'' \<notin> set d" and l: "numeric_literal (d @ ''.'')"
  from s consider "operand_text d" | "negative_text d" | "d = ERROR_MESSAGE" | "exponent_text d"
    by (auto simp: shown_def)
  then show ?thesis
  proof cases
    case 1
    from operand_text_dot [OF this n] show ?thesis by (simp add: shown_def)
  next
    case 2
    then obtain u where u: "d = CHR ''-'' # u" "operand_text u"
      by (cases d) (auto simp: negative_text_def)
    from u n operand_text_dot [of u] show ?thesis by (simp add: shown_def negative_text_def)
  next
    case 3
    with l not_literals(3) show ?thesis by (simp add: ERROR_MESSAGE_def)
  next
    case 4
    with l show ?thesis by (simp add: shown_def exponent_text_def)
  qed
qed

lemma shown_butlast:
  "shown d \<Longrightarrow> length d > 1 \<Longrightarrow> numeric_literal (butlast d) \<Longrightarrow> shown (butlast d)"
proof -
  assume s: "shown d" and n: "length d > 1" and l: "numeric_literal (butlast d)"
  from s consider "operand_text d" | "negative_text d" | "d = ERROR_MESSAGE" | "exponent_text d"
    by (auto simp: shown_def)
  then show ?thesis
  proof cases
    case 1
    from operand_text_butlast [OF this n] show ?thesis by (simp add: shown_def)
  next
    case 2
    then obtain u where u: "d = CHR ''-'' # u" "operand_text u"
      by (cases d) (auto simp: negative_text_def)
    show ?thesis
    proof (cases "length u > 1")
      case True
      from operand_text_butlast [OF u(2) True] True u(1) show ?thesis
        by (auto simp: shown_def negative_text_def)
    next
      case False
      with n u(1) have "butlast d = ''-''" by (cases u) auto
      with l not_literals(1) show ?thesis by simp
    qed
  next
    case 3
    with l not_literals(2) show ?thesis by (simp add: ERROR_MESSAGE_def)
  next
    case 4
    then have e: "numeric_literal d" "CHR ''e'' \<in> set d" by (simp_all add: exponent_text_def)
    from literal_last [OF e(1)] have "d \<noteq> []" "last d \<noteq> CHR ''e''" by simp_all
    then have "d = butlast d @ [last d]" by simp
    with e(2) \<open>last d \<noteq> CHR ''e''\<close> have "CHR ''e'' \<in> set (butlast d)"
      by (metis Un_iff empty_iff empty_set insert_iff list.simps(15) set_append)
    with l show ?thesis by (simp add: shown_def exponent_text_def)
  qed
qed

lemma shown_contract: "shown d \<Longrightarrow> display_contract d"
proof -
  assume s: "shown d"
  from s consider "operand_text d" | "negative_text d" | "d = ERROR_MESSAGE" | "exponent_text d"
    by (auto simp: shown_def)
  then show ?thesis
  proof cases
    case 1
    then show ?thesis by (simp add: operand_text_def display_contract_def decimal_numeral_literal)
  next
    case 2
    then obtain u where u: "d = CHR ''-'' # u" "decimal_numeral u"
      by (cases d) (auto simp: negative_text_def operand_text_def)
    from u(2) have h: "u \<noteq> []" "hd u \<noteq> CHR ''-''"
      using not_digit_chars(3) by (cases u; auto simp: decimal_numeral_def)+
    from literal_negative [OF decimal_numeral_literal [OF u(2)] h] u(1) show ?thesis
      by (simp add: display_contract_def)
  next
    case 3
    then show ?thesis by (simp add: display_contract_def)
  next
    case 4
    then show ?thesis by (simp add: display_contract_def exponent_text_def)
  qed
qed

text \<open>The admitted calls keep the invariant of the state.\<close>

lemma state_inv_shown: "state_inv s \<Longrightarrow> shown (currentInput s)"
  by (auto simp: state_inv_def shown_def split: if_splits)

lemma shown_error: "shown ERROR_MESSAGE"
  by (simp add: shown_def)

lemma state_inv_calculate:
  "state_inv s \<Longrightarrow> state_inv (snd (CalculatorState_calculate now s))"
proof (cases "operator s")
  case None
  assume "state_inv s"
  with None show ?thesis by (simp add: CalculatorState_calculate_def)
next
  case (Some op)
  assume inv: "state_inv s"
  show ?thesis
  proof (cases "op = [] \<or> previousInput s = []")
    case True
    with Some inv show ?thesis by (simp add: CalculatorState_calculate_def)
  next
    case False
    with inv Some have p: "shown (previousInput s)" and o: "isOperator op"
      by (simp_all add: state_inv_def)
    show ?thesis
    proof (cases "CalculationEngine_calculate (JSString (previousInput s @ op @ currentInput s))")
      case (Inl err)
      with Some False shown_error show ?thesis
        by (simp add: CalculatorState_calculate_def Let_def state_inv_def)
    next
      case (Inr r)
      from calculate_shown_finite [OF p state_inv_shown [OF inv] o Inr] have "Number_isFinite r" .
      from toString_shown [OF this] Some False Inr show ?thesis
        by (simp add: CalculatorState_calculate_def Let_def state_inv_def)
    qed
  qed
qed

lemma state_inv_applyOperator:
  "state_inv s \<Longrightarrow> isOperator op \<Longrightarrow> state_inv (snd (applyOperator op now s))"
proof -
  assume inv: "state_inv s" and o: "isOperator op"
  define p where "p = (if operator s \<noteq> None \<and> operator s \<noteq> Some [] \<and> \<not> shouldResetDisplay s
      then CalculatorState_calculate now s else (None, s))"
  have i1: "state_inv (snd p)" using inv state_inv_calculate [OF inv, of now] by (simp add: p_def)
  obtain e s1 where ps: "p = (e, s1)" by (cases p)
  with i1 have i2: "state_inv s1" by simp
  show ?thesis
  proof (cases e)
    case None
    with ps state_inv_shown [OF i2] o show ?thesis
      unfolding applyOperator_def p_def [symmetric] by (simp add: state_inv_def)
  next
    case (Some err)
    with ps i2 show ?thesis unfolding applyOperator_def p_def [symmetric] by simp
  qed
qed

lemma state_inv_step: "state_inv s \<Longrightarrow> admitted s c \<Longrightarrow> state_inv (step s c)"
proof (cases c)
  case (UpdateInput v)
  assume inv: "state_inv s" and a: "admitted s c"
  show ?thesis
  proof (cases "v = ''.''")
    case True
    show ?thesis
    proof (cases "CHR ''.'' \<in> set (currentInput s)")
      case d: True
      with True UpdateInput inv show ?thesis by (simp add: updateInput_def)
    next
      case d: False
      with a True UpdateInput have l: "numeric_literal (currentInput s @ ''.'')" by simp
      show ?thesis
      proof (cases "shouldResetDisplay s")
        case r: True
        with inv have "shown (currentInput s)" by (simp add: state_inv_def)
        from shown_dot [OF this d l] inv r True UpdateInput d show ?thesis
          by (simp add: updateInput_def state_inv_def)
      next
        case r: False
        with inv have "operand_text (currentInput s)" by (simp add: state_inv_def)
        from operand_text_dot [OF this d] inv r True UpdateInput d show ?thesis
          by (simp add: updateInput_def state_inv_def)
      qed
    qed
  next
    case False
    with a UpdateInput have v: "length v = 1" "list_all isDigit v" by simp_all
    show ?thesis
    proof (cases "currentInput s = DEFAULT_DISPLAY_VALUE \<or> shouldResetDisplay s")
      case True
      with operand_text_digit [OF v] inv False UpdateInput show ?thesis
        by (simp add: updateInput_def state_inv_def)
    next
      case r: False
      with inv have o: "operand_text (currentInput s)" by (simp add: state_inv_def)
      show ?thesis
      proof (cases "length (currentInput s) < MAX_DISPLAY_LENGTH")
        case True
        from operand_text_append [OF o True v] inv r False UpdateInput True show ?thesis
          by (simp add: updateInput_def state_inv_def)
      next
        case l: False
        with inv r False UpdateInput show ?thesis by (simp add: updateInput_def)
      qed
    qed
  qed
next
  case (ApplyOperator op now)
  assume "state_inv s" "admitted s c"
  with ApplyOperator show ?thesis by (simp add: state_inv_applyOperator)
next
  case (Calculate now)
  assume "state_inv s"
  with Calculate show ?thesis by (simp add: state_inv_calculate)
next
  case Backspace
  assume inv: "state_inv s" and a: "admitted s c"
  show ?thesis
  proof (cases "length (currentInput s) > 1")
    case True
    with a Backspace have l: "numeric_literal (butlast (currentInput s))" by simp
    show ?thesis
    proof (cases "shouldResetDisplay s")
      case r: True
      with inv have "shown (currentInput s)" by (simp add: state_inv_def)
      from shown_butlast [OF this True l] inv r True Backspace show ?thesis
        by (simp add: backspace_def state_inv_def)
    next
      case r: False
      with inv have "operand_text (currentInput s)" by (simp add: state_inv_def)
      from operand_text_butlast [OF this True] inv r True Backspace show ?thesis
        by (simp add: backspace_def state_inv_def)
    qed
  next
    case False
    with inv Backspace operand_text_default show ?thesis
      by (simp add: backspace_def state_inv_def shown_def)
  qed
next
  case Clear
  with operand_text_default show ?thesis
    by (simp add: clear_def reset_def state_inv_def)
qed

lemma state_inv_run:
  "state_inv s \<Longrightarrow> admitted_run s calls \<Longrightarrow> state_inv (foldl step s calls)"
  by (induction calls arbitrary: s) (auto simp: state_inv_step)

text \<open>
  Claim C2, amended. In every state reached from the initial state by calls with the
  arguments of the keypad (\<^verbatim>\<open>updateInput\<close> with one digit or \<^verbatim>\<open>"."\<close>, \<^verbatim>\<open>applyOperator\<close> with
  one of \<^verbatim>\<open>+ - * / %\<close>, \<^verbatim>\<open>calculate\<close>, \<^verbatim>\<open>backspace\<close>, \<^verbatim>\<open>clear\<close>), where
  \<^verbatim>\<open>updateInput(".")\<close> is called only on a display that has a point already or is a numeric
  literal once the point is appended, and \<^verbatim>\<open>backspace()\<close> only on a display of at most
  one character or one that is a numeric literal without its last character,
  \<^verbatim>\<open>getDisplayValue()\<close> is a numeric literal, the default \<^verbatim>\<open>"0"\<close> or the sentinel
  \<^verbatim>\<open>"Error"\<close>. The two conditions leave out the calls that break the display themselves,
  such as either call on \<^verbatim>\<open>"Error"\<close> and \<^verbatim>\<open>backspace()\<close> on a minus sign with one digit.
\<close>

theorem display_contract_of_admitted_calls:
  "admitted_run reset calls \<Longrightarrow> display_contract (getDisplayValue (run calls))"
proof -
  assume a: "admitted_run reset calls"
  have "state_inv reset" using operand_text_default by (simp add: state_inv_def reset_def)
  from state_inv_run [OF this a] have "state_inv (run calls)" by (simp add: run_def)
  from shown_contract [OF state_inv_shown [OF this]] show ?thesis by (simp add: getDisplayValue_def)
qed

theorem display_contract_of_admitted_calls_witness:
  "admitted_run reset
     [UpdateInput ''3'', ApplyOperator ''-'' ''2026-01-01T00:00:00.000Z'', UpdateInput ''4'',
      UpdateInput ''5'', Calculate ''2026-01-01T00:00:01.000Z'', UpdateInput ''.'', Backspace,
      Backspace] \<and>
   getDisplayValue (run
     [UpdateInput ''3'', ApplyOperator ''-'' ''2026-01-01T00:00:00.000Z'', UpdateInput ''4'',
      UpdateInput ''5'', Calculate ''2026-01-01T00:00:01.000Z'', UpdateInput ''.'', Backspace,
      Backspace]) = ''-4'' \<and>
   display_contract (getDisplayValue (run
     [UpdateInput ''3'', ApplyOperator ''-'' ''2026-01-01T00:00:00.000Z'', UpdateInput ''4'',
      UpdateInput ''5'', Calculate ''2026-01-01T00:00:01.000Z'', UpdateInput ''.'', Backspace,
      Backspace]))"
proof -
  have a: "admitted_run reset
     [UpdateInput ''3'', ApplyOperator ''-'' ''2026-01-01T00:00:00.000Z'', UpdateInput ''4'',
      UpdateInput ''5'', Calculate ''2026-01-01T00:00:01.000Z'', UpdateInput ''.'', Backspace,
      Backspace]"
    by code_simp
  have v: "getDisplayValue (run
     [UpdateInput ''3'', ApplyOperator ''-'' ''2026-01-01T00:00:00.000Z'', UpdateInput ''4'',
      UpdateInput ''5'', Calculate ''2026-01-01T00:00:01.000Z'', UpdateInput ''.'', Backspace,
      Backspace]) = ''-4''"
    by code_simp
  from display_contract_of_admitted_calls [OF a] a v show ?thesis by simp
qed

text \<open>One more \<^verbatim>\<open>backspace()\<close> would leave the minus sign alone, and is not admitted.\<close>

lemma backspace_to_minus_sign_not_admitted:
  "\<not> admitted_run reset
     [UpdateInput ''3'', ApplyOperator ''-'' ''2026-01-01T00:00:00.000Z'', UpdateInput ''4'',
      UpdateInput ''5'', Calculate ''2026-01-01T00:00:01.000Z'', UpdateInput ''.'', Backspace,
      Backspace, Backspace]"
  by code_simp

text \<open>The calls of \<^verbatim>\<open>updateInput(".")\<close> and \<^verbatim>\<open>backspace()\<close> that are not admitted are
  those that put the display outside the contract (no display is \<^verbatim>\<open>"Error"\<close> followed by
  one more character).\<close>

lemma refused_point_breaks_display:
  "\<not> admitted s (UpdateInput ''.'') \<Longrightarrow>
   \<not> display_contract (getDisplayValue (updateInput ''.'' s))"
  by (auto simp: updateInput_def getDisplayValue_def display_contract_def DEFAULT_DISPLAY_VALUE_def
      ERROR_MESSAGE_def)

lemma refused_backspace_breaks_display:
  "\<not> admitted s Backspace \<Longrightarrow> butlast (currentInput s) \<noteq> ERROR_MESSAGE \<Longrightarrow>
   \<not> display_contract (getDisplayValue (backspace s))"
proof -
  assume a: "\<not> admitted s Backspace" and e: "butlast (currentInput s) \<noteq> ERROR_MESSAGE"
  have z: "numeric_literal ''0''" by (rule literal_integer) (simp_all add: digit_zero)
  from a e z show ?thesis
    by (auto simp: backspace_def getDisplayValue_def display_contract_def DEFAULT_DISPLAY_VALUE_def)
qed

subsection \<open>The length of the input\<close>

text \<open>
  Claim C3 does not hold as stated. \<^verbatim>\<open>calculate()\<close> sets \<^verbatim>\<open>currentInput\<close> to the string of
  its result, whatever its length: after typing 5000000000000000, \<^verbatim>\<open>*\<close>, 2 and \<^verbatim>\<open>=\<close> the
  input is \<^verbatim>\<open>"10000000000000000"\<close>, of 17 characters. And \<^verbatim>\<open>updateInput\<close> appends the
  decimal point without a look at the length: typed after the sixteen digits
  5000000000000000 it makes the 17 characters \<^verbatim>\<open>"5000000000000000."\<close>.
\<close>

theorem input_longer_than_display:
  "\<not> length (currentInput (run (UpdateInput ''5'' # replicate 15 (UpdateInput ''0'') @
        [ApplyOperator ''*'' ''2026-01-01T00:00:00.000Z'', UpdateInput ''2'',
         Calculate ''2026-01-01T00:00:01.000Z'']))) \<le> MAX_DISPLAY_LENGTH \<and>
   \<not> length (currentInput (run (UpdateInput ''5'' # replicate 15 (UpdateInput ''0'') @
        [UpdateInput ''.'']))) \<le> MAX_DISPLAY_LENGTH"
  by code_simp

lemma calculate_sets_reset:
  "CalculatorState_calculate now s = (e, s1) \<Longrightarrow> s1 = s \<or> shouldResetDisplay s1"
  by (auto simp: CalculatorState_calculate_def Let_def split: option.splits sum.splits if_splits)

lemma applyOperator_sets_reset: "shouldResetDisplay (snd (applyOperator op now s))"
proof (cases "operator s \<noteq> None \<and> operator s \<noteq> Some [] \<and> \<not> shouldResetDisplay s")
  case True
  obtain e s1 where c: "CalculatorState_calculate now s = (e, s1)"
    by (cases "CalculatorState_calculate now s")
  show ?thesis
  proof (cases e)
    case None
    with c True show ?thesis by (simp add: applyOperator_def)
  next
    case (Some err)
    with c have "shouldResetDisplay s1"
      by (auto simp: CalculatorState_calculate_def Let_def split: option.splits sum.splits if_splits)
    with c True Some show ?thesis by (simp add: applyOperator_def)
  qed
next
  case False
  then show ?thesis by (auto simp: applyOperator_def)
qed

lemma typed_within_bound_step:
  "typed_within_bound s \<Longrightarrow> within_bound_call s c \<Longrightarrow> typed_within_bound (step s c)"
proof (cases c)
  case (UpdateInput v)
  assume "typed_within_bound s" "within_bound_call s c"
  with UpdateInput show ?thesis
    by (auto simp: typed_within_bound_def updateInput_def MAX_DISPLAY_LENGTH_def split: if_splits)
next
  case (ApplyOperator op now)
  then show ?thesis by (simp add: typed_within_bound_def applyOperator_sets_reset)
next
  case (Calculate now)
  assume t: "typed_within_bound s"
  obtain e s1 where c: "CalculatorState_calculate now s = (e, s1)"
    by (cases "CalculatorState_calculate now s")
  from calculate_sets_reset [OF c] t c Calculate show ?thesis
    by (auto simp: typed_within_bound_def)
next
  case Backspace
  assume "typed_within_bound s"
  with Backspace show ?thesis
    by (auto simp: typed_within_bound_def backspace_def MAX_DISPLAY_LENGTH_def
        DEFAULT_DISPLAY_VALUE_def)
next
  case Clear
  then show ?thesis
    by (simp add: typed_within_bound_def clear_def reset_def MAX_DISPLAY_LENGTH_def
        DEFAULT_DISPLAY_VALUE_def)
qed

lemma typed_within_bound_run:
  "typed_within_bound s \<Longrightarrow> within_bound_run s calls \<Longrightarrow>
   typed_within_bound (foldl step s calls)"
  by (induction calls arbitrary: s) (auto simp: typed_within_bound_step)

lemma currentInput_calculate:
  "currentInput (snd (CalculatorState_calculate now s)) = currentInput s \<or>
   currentInput (snd (CalculatorState_calculate now s)) = ERROR_MESSAGE \<or>
   (\<exists>op r. operator s = Some op \<and>
      CalculationEngine_calculate (JSString (previousInput s @ op @ currentInput s)) = Inr r \<and>
      currentInput (snd (CalculatorState_calculate now s)) = Number_toString r)"
  by (auto simp: CalculatorState_calculate_def Let_def split: option.splits sum.splits)

lemma currentInput_applyOperator:
  "currentInput (snd (applyOperator op' now s)) = currentInput s \<or>
   currentInput (snd (applyOperator op' now s)) = ERROR_MESSAGE \<or>
   (\<exists>op r. operator s = Some op \<and>
      CalculationEngine_calculate (JSString (previousInput s @ op @ currentInput s)) = Inr r \<and>
      currentInput (snd (applyOperator op' now s)) = Number_toString r)"
proof -
  have "currentInput (snd (applyOperator op' now s)) = currentInput s \<or>
        currentInput (snd (applyOperator op' now s)) =
          currentInput (snd (CalculatorState_calculate now s))"
    by (auto simp: applyOperator_def split: prod.splits option.splits)
  with currentInput_calculate [of now s] show ?thesis by metis
qed

text \<open>
  Claim C3, amended. In every state reached from the initial state by \<^verbatim>\<open>updateInput\<close> with
  a single character, \<^verbatim>\<open>applyOperator\<close>, \<^verbatim>\<open>calculate\<close>, \<^verbatim>\<open>backspace\<close> and \<^verbatim>\<open>clear\<close>, where the
  decimal point is not typed on an input of 16 or more characters that has no point and is
  being typed, \<^verbatim>\<open>currentInput\<close> has at most 16 characters whenever \<^verbatim>\<open>shouldResetDisplay\<close>
  is false, that is while a number is being typed; a character other than the point that
  is typed at 16 characters or more is dropped by \<^verbatim>\<open>updateInput\<close>, which leaves the state
  as it is. \<^verbatim>\<open>calculate()\<close> and \<^verbatim>\<open>applyOperator\<close> leave \<^verbatim>\<open>currentInput\<close> as it is or set it
  to \<^verbatim>\<open>"Error"\<close> or to the string of the Number the engine returned, which is not bounded
  by 16.
\<close>

theorem typed_input_bounded:
  "(within_bound_run reset calls \<and> \<not> shouldResetDisplay (run calls) \<longrightarrow>
      length (currentInput (run calls)) \<le> MAX_DISPLAY_LENGTH) \<and>
   (v \<noteq> ''.'' \<and> MAX_DISPLAY_LENGTH \<le> length (currentInput s) \<and>
    currentInput s \<noteq> DEFAULT_DISPLAY_VALUE \<and> \<not> shouldResetDisplay s \<longrightarrow>
      updateInput v s = s) \<and>
   (currentInput (snd (CalculatorState_calculate now s)) = currentInput s \<or>
    currentInput (snd (CalculatorState_calculate now s)) = ERROR_MESSAGE \<or>
    (\<exists>op r. operator s = Some op \<and>
       CalculationEngine_calculate (JSString (previousInput s @ op @ currentInput s)) = Inr r \<and>
       currentInput (snd (CalculatorState_calculate now s)) = Number_toString r)) \<and>
   (currentInput (snd (applyOperator op' now s)) = currentInput s \<or>
    currentInput (snd (applyOperator op' now s)) = ERROR_MESSAGE \<or>
    (\<exists>op r. operator s = Some op \<and>
       CalculationEngine_calculate (JSString (previousInput s @ op @ currentInput s)) = Inr r \<and>
       currentInput (snd (applyOperator op' now s)) = Number_toString r))"
proof -
  have start: "typed_within_bound reset"
    by (simp add: typed_within_bound_def reset_def MAX_DISPLAY_LENGTH_def DEFAULT_DISPLAY_VALUE_def)
  have inv: "within_bound_run reset calls \<and> \<not> shouldResetDisplay (run calls) \<longrightarrow>
      length (currentInput (run calls)) \<le> MAX_DISPLAY_LENGTH"
    using typed_within_bound_run [OF start, of calls]
    by (auto simp: run_def typed_within_bound_def)
  have dropped: "v \<noteq> ''.'' \<and> MAX_DISPLAY_LENGTH \<le> length (currentInput s) \<and>
    currentInput s \<noteq> DEFAULT_DISPLAY_VALUE \<and> \<not> shouldResetDisplay s \<longrightarrow> updateInput v s = s"
    by (simp add: updateInput_def)
  from inv dropped currentInput_calculate [of now s] currentInput_applyOperator [of op' now s]
  show ?thesis by blast
qed

theorem typed_input_bounded_witness:
  "within_bound_run reset (UpdateInput ''3'' # UpdateInput ''.'' # replicate 15 (UpdateInput ''1'')) \<and>
   \<not> shouldResetDisplay (run (UpdateInput ''3'' # UpdateInput ''.'' # replicate 15 (UpdateInput ''1''))) \<and>
   currentInput (run (UpdateInput ''3'' # UpdateInput ''.'' # replicate 15 (UpdateInput ''1''))) =
     ''3.11111111111111'' \<and>
   length (currentInput (run (UpdateInput ''3'' # UpdateInput ''.'' # replicate 15 (UpdateInput ''1'')))) \<le>
     MAX_DISPLAY_LENGTH \<and>
   updateInput ''7'' (run (UpdateInput ''3'' # UpdateInput ''.'' # replicate 15 (UpdateInput ''1''))) =
     run (UpdateInput ''3'' # UpdateInput ''.'' # replicate 15 (UpdateInput ''1''))"
proof -
  define calls where "calls = UpdateInput ''3'' # UpdateInput ''.'' # replicate 15 (UpdateInput ''1'')"
  have h1: "within_bound_run reset calls" unfolding calls_def by code_simp
  have h2: "\<not> shouldResetDisplay (run calls)" unfolding calls_def by code_simp
  have h3: "currentInput (run calls) = ''3.11111111111111''" unfolding calls_def by code_simp
  have h4: "''7'' \<noteq> ''.'' \<and> MAX_DISPLAY_LENGTH \<le> length (currentInput (run calls)) \<and>
    currentInput (run calls) \<noteq> DEFAULT_DISPLAY_VALUE"
    unfolding h3 by (simp add: MAX_DISPLAY_LENGTH_def DEFAULT_DISPLAY_VALUE_def)
  from h1 h2 h4 typed_input_bounded [of calls "''7''" "run calls"]
  have "length (currentInput (run calls)) \<le> MAX_DISPLAY_LENGTH \<and>
        updateInput ''7'' (run calls) = run calls"
    by blast
  with h1 h2 h3 show ?thesis unfolding calls_def by simp
qed

text \<open>The point typed at the bound is not among these calls.\<close>

lemma decimal_point_at_the_bound_not_within:
  "\<not> within_bound_run reset (UpdateInput ''5'' # replicate 15 (UpdateInput ''0'') @ [UpdateInput ''.''])"
  by code_simp

text \<open>A decimal point that is not among these calls makes the typed input longer than the
  bound.\<close>

lemma refused_point_exceeds_bound:
  "\<not> within_bound_call s (UpdateInput ''.'') \<Longrightarrow>
   \<not> shouldResetDisplay (updateInput ''.'' s) \<and>
   MAX_DISPLAY_LENGTH < length (currentInput (updateInput ''.'' s))"
  by (auto simp: updateInput_def)

subsection \<open>History\<close>

lemma push_last10:
  "h = last10 acc \<Longrightarrow>
   (let pushed = h @ [e] in if length pushed > 10 then tl pushed else pushed) = last10 (acc @ [e])"
proof (cases "length acc < 10")
  case True
  assume "h = last10 acc"
  with True show ?thesis by (simp add: last10_def Let_def)
next
  case False
  assume h: "h = last10 acc"
  from False have eq: "Suc (length acc - 10) = length acc - 9" by arith
  from False have "tl (drop (length acc - 10) acc) = drop (length acc - 9) acc"
    by (simp add: tl_drop drop_Suc [symmetric] eq)
  with False h show ?thesis by (simp add: last10_def Let_def)
qed

lemma history_calculate:
  "history (snd (CalculatorState_calculate now s)) =
     (case recorded_by_calculate now s of
        [] \<Rightarrow> history s
      | e # es \<Rightarrow> (let pushed = history s @ [e] in if length pushed > 10 then tl pushed else pushed))"
  by (auto simp: CalculatorState_calculate_def recorded_by_calculate_def Let_def
      split: option.splits sum.splits)

lemma recorded_by_calculate_cases:
  "recorded_by_calculate now s = [] \<or> (\<exists>e. recorded_by_calculate now s = [e])"
  by (auto simp: recorded_by_calculate_def Let_def split: option.splits sum.splits)

lemma history_calculate_last10:
  "history s = last10 acc \<Longrightarrow>
   history (snd (CalculatorState_calculate now s)) = last10 (acc @ recorded_by_calculate now s)"
  using recorded_by_calculate_cases [of now s] push_last10 [of "history s" acc]
  by (auto simp: history_calculate)

lemma history_applyOperator:
  "history (snd (applyOperator op now s)) =
     (if operator s \<noteq> None \<and> operator s \<noteq> Some [] \<and> \<not> shouldResetDisplay s
      then history (snd (CalculatorState_calculate now s)) else history s)"
  by (auto simp: applyOperator_def split: prod.splits option.splits)

lemma history_step:
  "history s = last10 acc \<Longrightarrow>
   history (step s c) = last10 (if c = Clear then [] else acc @ recorded_by s c)"
  by (cases c)
    (auto simp: history_calculate_last10 history_applyOperator updateInput_def backspace_def
      clear_def reset_def last10_def)

lemma history_run:
  "history s = last10 acc \<Longrightarrow> history (foldl step s calls) = last10 (recorded_from s calls acc)"
proof (induction calls arbitrary: s acc)
  case Nil
  then show ?case by simp
next
  case (Cons c cs)
  from history_step [OF Cons.prems, of c] show ?case
    by (simp add: Cons.IH)
qed

text \<open>
  Claim C9. After any sequence of calls, \<^verbatim>\<open>getHistory()\<close> is the list of the last ten
  entries pushed by successful calculations since the last \<^verbatim>\<open>clear()\<close>, oldest first (all
  of them when there are at most ten): after more than ten successful calculations it
  has exactly ten entries, the most recent ones in the order they were made. \<^verbatim>\<open>clear()\<close>
  empties the history.
\<close>

theorem history_keeps_last_ten:
  "getHistory (run calls) = last10 (recorded calls) \<and>
   length (getHistory (run calls)) = min 10 (length (recorded calls)) \<and>
   getHistory (clear s) = []"
proof -
  have "history reset = last10 []" by (simp add: reset_def last10_def)
  from history_run [OF this, of calls]
  have "getHistory (run calls) = last10 (recorded calls)"
    by (simp add: getHistory_def run_def recorded_def)
  then show ?thesis
    by (auto simp: last10_def getHistory_def clear_def reset_def)
qed

text \<open>Eleven calculations in a row: the history holds the last ten, the first one is gone.\<close>

lemma history_after_eleven_calculations:
  "map expression (getHistory (run
     ([UpdateInput ''1'', ApplyOperator ''+'' t, UpdateInput ''1'', Calculate t] @
      concat (replicate 10 [ApplyOperator ''+'' t, Calculate t])))) =
   [''2+2'', ''4+4'', ''8+8'', ''16+16'', ''32+32'', ''64+64'', ''128+128'', ''256+256'',
    ''512+512'', ''1024+1024'']"
  by code_simp

end
